theory Spec2Isabelle
  imports Main
begin

section \<open>Small-buffer storage and the type-erased container (unique_function.hpp)\<close>

text \<open>
  Addresses. A container object is identified by an object id; the inline buffer of its
  \<open>Storage\<close> member lives inside the object, so its address is determined by the object.
  A heap address is whatever the platform allocator returned; \<open>Null\<close> is the null pointer
  the allocator returns when it fails.
\<close>

type_synonym oid = nat

datatype addr = Null | InlineAddr oid | HeapAddr nat

text \<open>
  A concrete C++ type \<open>T\<close> as far as the templates look at it: \<open>sizeof(T)\<close>,
  \<open>alignof(T)\<close> and its identity. The function pointers \<open>&details::mover<T>\<close> and
  \<open>&details::destroyer<T>\<close> are determined by \<open>T\<close>, so a captured pointer is
  represented by the type it was instantiated for.
\<close>

record ctype =
  tname :: string
  sizeof :: nat
  alignof :: nat

text \<open>
  The effects of the storage code on the outside world, in program order:
  a call of the platform allocator with its result, a call of \<open>free\<close>, a placement
  construction \<open>new (p) T(...)\<close>, a call \<open>details::mover<T>(lhs, rhs)\<close> and a call
  \<open>details::destroyer<T>(instance)\<close>.
\<close>

datatype event =
    Alloc nat nat addr
  | Free addr
  | Construct ctype addr
  | Relocate ctype addr addr
  | Destroy ctype addr

fun is_Alloc :: "event \<Rightarrow> bool" where
  "is_Alloc (Alloc sz al p) = True"
| "is_Alloc e = False"


fun is_Relocate :: "event \<Rightarrow> bool" where
  "is_Relocate (Relocate T p q) = True"
| "is_Relocate e = False"


text \<open>
  \<open>details::aligned_alloc(size, align)\<close> forwards to the platform's
  \<open>std::aligned_alloc(align, size)\<close> (argument order swapped) and returns its result
  unchanged. The platform allocator is a parameter.
\<close>

definition aligned_alloc :: "(nat \<Rightarrow> nat \<Rightarrow> addr) \<Rightarrow> nat \<Rightarrow> nat \<Rightarrow> addr" where
  "aligned_alloc std_aligned_alloc sz al = (let ptr = std_aligned_alloc al sz in ptr)"

text \<open>
  \<open>Storage<N>::m_data\<close> is a \<open>std::variant<inline_storage_t, Allocation>\<close>;
  \<open>Allocation\<close> holds \<open>ptr\<close> and \<open>size\<close>.
\<close>

datatype Storage = inline_storage_t | Allocation addr nat

definition is_inlined :: "Storage \<Rightarrow> bool" where
  "is_inlined st = (case st of inline_storage_t \<Rightarrow> True | Allocation p sz \<Rightarrow> False)"

definition pointer :: "oid \<Rightarrow> Storage \<Rightarrow> addr" where
  "pointer self st = (case st of inline_storage_t \<Rightarrow> InlineAddr self | Allocation p sz \<Rightarrow> p)"

text \<open>
  \<open>template <typename T> explicit Storage(T&& data)\<close>. \<open>N\<close> is the template parameter,
  \<open>max_align\<close> is \<open>alignof(inline_storage_t)\<close>, i.e. \<open>alignof(std::max_align_t)\<close>.
  The result is the variant and the effects of the constructor. The returned pointer is
  used as it is: the source has no test of it. (A later revision of the header, also in
  the repository, has the same test in a constructor \<open>Storage(size, alignment)\<close> that
  this constructor delegates to, again with no test of the pointer.)
\<close>

definition Storage_ctor ::
  "nat \<Rightarrow> nat \<Rightarrow> (nat \<Rightarrow> nat \<Rightarrow> addr) \<Rightarrow> oid \<Rightarrow> ctype \<Rightarrow> Storage \<times> event list" where
  "Storage_ctor N max_align std_aligned_alloc self T =
     (if sizeof T \<le> N \<and> alignof T \<le> max_align
      then (inline_storage_t, [Construct T (InlineAddr self)])
      else (let p = aligned_alloc std_aligned_alloc (sizeof T) (alignof T)
            in (Allocation p (sizeof T),
                [Alloc (sizeof T) (alignof T) p, Construct T p])))"

text \<open>\<open>~Storage()\<close>: frees the heap buffer when the heap alternative is active.\<close>

definition Storage_dtor :: "Storage \<Rightarrow> event list" where
  "Storage_dtor st = (case st of inline_storage_t \<Rightarrow> [] | Allocation p sz \<Rightarrow> [Free p])"

text \<open>
  \<open>ErasuredType<N>\<close>. The member \<open>m_trivial\<close> is never written or read and is left out.
  A function pointer member that no constructor has assigned yet is indeterminate:
  \<open>None\<close>.
\<close>

record ErasuredType =
  m_valid :: bool
  m_storage :: Storage
  m_mover :: "ctype option"
  m_destroyer :: "ctype option"

text \<open>
  The store of container objects and the trace of effects so far. Operations take the
  ids of the objects they work on, so that \<open>this\<close> and \<open>rhs\<close> may be the same object.
\<close>

record world =
  objs :: "oid \<Rightarrow> ErasuredType"
  trace :: "event list"

text \<open>
  Using an indeterminate function pointer is the fault this model tracks: calling through
  one, or reading one to copy it.
\<close>

datatype fault = IndeterminateCall | IndeterminateRead

definition emit :: "event list \<Rightarrow> world \<Rightarrow> world" where
  "emit evs w = w\<lparr>trace := trace w @ evs\<rparr>"

definition set_valid :: "oid \<Rightarrow> bool \<Rightarrow> world \<Rightarrow> world" where
  "set_valid this b w = w\<lparr>objs := (objs w)(this := (objs w this)\<lparr>m_valid := b\<rparr>)\<rparr>"

definition set_storage :: "oid \<Rightarrow> Storage \<Rightarrow> world \<Rightarrow> world" where
  "set_storage this st w = w\<lparr>objs := (objs w)(this := (objs w this)\<lparr>m_storage := st\<rparr>)\<rparr>"

definition set_mover :: "oid \<Rightarrow> ctype option \<Rightarrow> world \<Rightarrow> world" where
  "set_mover this f w = w\<lparr>objs := (objs w)(this := (objs w this)\<lparr>m_mover := f\<rparr>)\<rparr>"

definition set_destroyer :: "oid \<Rightarrow> ctype option \<Rightarrow> world \<Rightarrow> world" where
  "set_destroyer this f w = w\<lparr>objs := (objs w)(this := (objs w this)\<lparr>m_destroyer := f\<rparr>)\<rparr>"

text \<open>\<open>m_destroyer(m_storage.pointer())\<close> on object \<open>this\<close>.\<close>

definition call_destroyer :: "oid \<Rightarrow> world \<Rightarrow> fault + world" where
  "call_destroyer this w =
     (case m_destroyer (objs w this) of
        None \<Rightarrow> Inl IndeterminateCall
      | Some T \<Rightarrow> Inr (emit [Destroy T (pointer this (m_storage (objs w this)))] w))"

text \<open>\<open>rhs.m_mover(m_storage.pointer(), rhs.m_storage.pointer())\<close>.\<close>

definition call_mover :: "oid \<Rightarrow> oid \<Rightarrow> world \<Rightarrow> fault + world" where
  "call_mover this rhs w =
     (case m_mover (objs w rhs) of
        None \<Rightarrow> Inl IndeterminateCall
      | Some T \<Rightarrow> Inr (emit [Relocate T (pointer this (m_storage (objs w this)))
                                       (pointer rhs (m_storage (objs w rhs)))] w))"

text \<open>
  \<open>Storage& operator=(Storage&& rhs)\<close> on the \<open>m_storage\<close> members of \<open>this\<close> and \<open>rhs\<close>:
  run the destructor on the old contents, take over \<open>rhs.m_data\<close>, reset \<open>rhs.m_data\<close> to
  the inline alternative.
\<close>

definition Storage_move_assign :: "oid \<Rightarrow> oid \<Rightarrow> world \<Rightarrow> world" where
  "Storage_move_assign this rhs w =
     (let w1 = emit (Storage_dtor (m_storage (objs w this))) w;
          w2 = set_storage this (m_storage (objs w1 rhs)) w1
      in set_storage rhs inline_storage_t w2)"


text \<open>
  \<open>template <typename T> explicit ErasuredType(T&& data)\<close>: \<open>m_valid(true)\<close>,
  \<open>m_storage(std::forward<T>(data))\<close>, then the two function pointers are captured.
\<close>

definition ErasuredType_ctor ::
  "nat \<Rightarrow> nat \<Rightarrow> (nat \<Rightarrow> nat \<Rightarrow> addr) \<Rightarrow> oid \<Rightarrow> ctype \<Rightarrow> world \<Rightarrow> world" where
  "ErasuredType_ctor N max_align std_aligned_alloc this T w =
     (case Storage_ctor N max_align std_aligned_alloc this T of
        (st, evs) \<Rightarrow>
          emit evs (w\<lparr>objs := (objs w)(this :=
            \<lparr>m_valid = True, m_storage = st, m_mover = Some T, m_destroyer = Some T\<rparr>)\<rparr>))"

text \<open>
  \<open>ErasuredType& operator=(ErasuredType&& rhs)\<close>, statement by statement.
\<close>

definition ErasuredType_move_assign :: "oid \<Rightarrow> oid \<Rightarrow> world \<Rightarrow> fault + world" where
  "ErasuredType_move_assign this rhs w0 =
     (case (if m_valid (objs w0 this)
            then (case call_destroyer this w0 of
                    Inl f \<Rightarrow> Inl f
                  | Inr w \<Rightarrow> Inr (set_valid this False w))
            else Inr w0) of
        Inl f \<Rightarrow> Inl f
      | Inr w1 \<Rightarrow>
          if \<not> m_valid (objs w1 rhs) then Inr w1
          else (case (if \<not> is_inlined (m_storage (objs w1 rhs))
                      then Inr (Storage_move_assign this rhs w1)
                      else call_mover this rhs w1) of
                  Inl f \<Rightarrow> Inl f
                | Inr w2 \<Rightarrow>
                    (case m_mover (objs w2 rhs) of
                       None \<Rightarrow> Inl IndeterminateRead
                     | Some mv \<Rightarrow>
                         (let w3 = set_mover this (Some mv) w2
                          in case m_destroyer (objs w3 rhs) of
                               None \<Rightarrow> Inl IndeterminateRead
                             | Some ds \<Rightarrow>
                                 (let w4 = set_destroyer this (Some ds) w3;
                                      w5 = set_valid this True w4
                                  in Inr (set_valid rhs False w5))))))"



definition valid :: "oid \<Rightarrow> world \<Rightarrow> bool" where
  "valid this w = m_valid (objs w this)"

text \<open>
  The invariant of the container: while \<open>m_valid\<close> holds, both function pointers have
  been captured.
\<close>

definition ptrs_ok :: "ErasuredType \<Rightarrow> bool" where
  "ptrs_ok e = (m_valid e \<longrightarrow> m_mover e \<noteq> None \<and> m_destroyer e \<noteq> None)"

definition world_ok :: "world \<Rightarrow> bool" where
  "world_ok w = (\<forall>x. ptrs_ok (objs w x))"

text \<open>Concrete types and worlds used by the tests (\<^verbatim>\<open>tests_unique_function.cpp\<close>), an allocator that succeeds and one that fails.\<close>

definition uint32_t :: ctype where
  "uint32_t = \<lparr>tname = ''uint32_t'', sizeof = 4, alignof = 4\<rparr>"

definition int64_t :: ctype where
  "int64_t = \<lparr>tname = ''int64_t'', sizeof = 8, alignof = 8\<rparr>"

definition S2_8 :: ctype where
  "S2_8 = \<lparr>tname = ''S2<8>'', sizeof = 8, alignof = 1\<rparr>"

definition empty_world :: world where
  "empty_world =
     \<lparr>objs = (\<lambda>x. \<lparr>m_valid = False, m_storage = inline_storage_t,
                    m_mover = None, m_destroyer = None\<rparr>),
      trace = []\<rparr>"

definition working_alloc :: "nat \<Rightarrow> nat \<Rightarrow> addr" where
  "working_alloc al sz = HeapAddr 4096"


text \<open>
  What the first statement of \<open>operator=\<close> does to the trace: the call of the destroyer
  on the value \<open>this\<close> holds, when it holds one.
\<close>

definition held_value_destroyed :: "oid \<Rightarrow> world \<Rightarrow> event list" where
  "held_value_destroyed this w =
     (if m_valid (objs w this)
      then (case m_destroyer (objs w this) of
              None \<Rightarrow> []
            | Some T \<Rightarrow> [Destroy T (pointer this (m_storage (objs w this)))])
      else [])"

text \<open>
  \<open>ttp::ErasuredType<8> instance1(S2(...))\<close> of the test "Inlined allocated constructors
  and destructors", as object 1 of an otherwise empty world.
\<close>

definition instance1 :: world where
  "instance1 = ErasuredType_ctor 8 16 working_alloc 1 S2_8 empty_world"

section \<open>Task, Future and ThreadPool (thread_pool.hpp)\<close>

subsection \<open>The result channel\<close>

text \<open>
  What can travel through a \<open>std::promise\<close>/\<open>std::future\<close> pair as an exception: an
  exception thrown by the submitted callable, or the \<open>std::future_error\<close> the standard
  library throws when a promise that is already satisfied is set again.
\<close>

datatype 'e exception = Thrown 'e | future_error

text \<open>
  The shared state of a promise and its future: not yet set, a value, or an exception.
\<close>

type_synonym ('e, 'r) shared_state = "('e exception + 'r) option"

definition set_value ::
  "'r \<Rightarrow> ('e, 'r) shared_state \<Rightarrow> 'e exception + ('e, 'r) shared_state" where
  "set_value v st = (case st of None \<Rightarrow> Inr (Some (Inr v)) | Some x \<Rightarrow> Inl future_error)"

definition set_exception ::
  "'e exception \<Rightarrow> ('e, 'r) shared_state \<Rightarrow> 'e exception + ('e, 'r) shared_state" where
  "set_exception e st = (case st of None \<Rightarrow> Inr (Some (Inl e)) | Some x \<Rightarrow> Inl future_error)"

text \<open>
  How a call can end other than by returning: \<open>std::terminate\<close> (an exception leaves a
  \<open>noexcept\<close> function), a failed \<open>assert\<close>, or a call through a null shared pointer.
\<close>

datatype crash = Terminate | AssertionFailed | NullDereference

datatype 'a outcome = Normal 'a | Crashed crash

text \<open>
  What \<open>Future<T>::get()\<close> does from its caller's point of view: it returns the value,
  rethrows the stored exception, stays blocked inside \<open>std::future::get\<close> because the
  result is not there yet, or the process ends.
\<close>

datatype ('e, 'r) get_result = Returned 'r | Rethrown "'e exception" | Blocked | Aborted crash

text \<open>\<open>std::future<T>::get()\<close> on a valid future.\<close>

definition future_get :: "('e, 'r) shared_state \<Rightarrow> ('e, 'r) get_result" where
  "future_get st =
     (case st of None \<Rightarrow> Blocked | Some (Inl e) \<Rightarrow> Rethrown e | Some (Inr v) \<Rightarrow> Returned v)"

subsection \<open>details::Task\<close>

text \<open>
  \<open>m_worked_on\<close> is the \<open>std::atomic_flag\<close>, \<open>m_ready\<close> the \<open>std::atomic<bool>\<close>,
  \<open>m_future\<close> the shared state of \<open>task_barrier\<close> (read through the member
  \<open>std::future<void> m_future\<close>). The member \<open>m_task\<close> is the closure built by the
  constructor; it owns the user's callable with its bound arguments (\<open>task\<close>; an
  \<open>Inl\<close> result is an exception thrown by the callable) and the \<open>promise\<close> of the result
  channel. \<open>m_task_valid\<close> is \<open>m_task.valid()\<close>. \<open>invocations\<close> counts the calls of the
  user's callable, the way the counters of the tests count constructor calls.
\<close>

record ('e, 'r) Task =
  m_worked_on :: bool
  m_ready :: bool
  m_future :: "('e, unit) shared_state"
  m_task_valid :: bool
  task :: "unit \<Rightarrow> 'e + 'r"
  promise :: "('e, 'r) shared_state"
  invocations :: nat

text \<open>\<open>Task(future, func, args...)\<close>.\<close>

definition Task_ctor :: "('a \<Rightarrow> 'e + 'r) \<Rightarrow> 'a \<Rightarrow> ('e, 'r) Task" where
  "Task_ctor func args =
     \<lparr>m_worked_on = False, m_ready = False, m_future = None, m_task_valid = True,
      task = (\<lambda>u. func args), promise = None, invocations = 0\<rparr>"

text \<open>\<open>m_worked_on.test_and_set()\<close>: one atomic read-modify-write; returns the old value.\<close>

definition test_and_set :: "('e, 'r) Task \<Rightarrow> bool \<times> ('e, 'r) Task" where
  "test_and_set t = (m_worked_on t, t\<lparr>m_worked_on := True\<rparr>)"

text \<open>
  The body of the closure \<open>m_task\<close>, in three pieces: the call \<open>task()\<close> of the user's
  callable; the rest of the \<open>try\<close> block with its \<open>catch (...)\<close> handler, which puts the
  value or the exception into the promise; and \<open>task_barrier.set_value()\<close>. The closure
  is \<open>noexcept\<close>: an exception that leaves the handler or the last statement ends the
  process.
\<close>

definition invoke :: "('e, 'r) Task \<Rightarrow> ('e + 'r) \<times> ('e, 'r) Task" where
  "invoke t = (task t (), t\<lparr>invocations := Suc (invocations t)\<rparr>)"

definition deliver :: "'e + 'r \<Rightarrow> ('e, 'r) Task \<Rightarrow> ('e, 'r) Task outcome" where
  "deliver res t =
     (case (case res of
              Inl e \<Rightarrow> Inl (Thrown e)
            | Inr v \<Rightarrow> set_value v (promise t)) of
        Inr st \<Rightarrow> Normal (t\<lparr>promise := st\<rparr>)
      | Inl ex \<Rightarrow>
          (case set_exception ex (promise t) of
             Inr st \<Rightarrow> Normal (t\<lparr>promise := st\<rparr>)
           | Inl ex' \<Rightarrow> Crashed Terminate))"

definition signal :: "('e, 'r) Task \<Rightarrow> ('e, 'r) Task outcome" where
  "signal t =
     (case set_value () (m_future t) of
        Inr st \<Rightarrow> Normal (t\<lparr>m_future := st\<rparr>)
      | Inl ex \<Rightarrow> Crashed Terminate)"

definition m_task_call :: "('e, 'r) Task \<Rightarrow> ('e, 'r) Task outcome" where
  "m_task_call t =
     (case invoke t of
        (res, t1) \<Rightarrow>
          (case deliver res t1 of
             Crashed c \<Rightarrow> Crashed c
           | Normal t2 \<Rightarrow> signal t2))"

text \<open>\<open>Task::try_run()\<close>, run by one thread without interference.\<close>

definition try_run :: "('e, 'r) Task \<Rightarrow> ('e, 'r) Task outcome" where
  "try_run t =
     (case test_and_set t of
        (was_set, t1) \<Rightarrow>
          if \<not> was_set then
            (if \<not> m_task_valid t1 then Crashed AssertionFailed
             else if m_ready t1 then Crashed AssertionFailed
             else (case m_task_call t1 of
                     Crashed c \<Rightarrow> Crashed c
                   | Normal t2 \<Rightarrow> Normal (t2\<lparr>m_ready := True\<rparr>)))
          else Normal t1)"

text \<open>
  \<open>Future<T>::get()\<close> on the Task the future holds, run by one thread without
  interference: \<open>m_task->try_run()\<close>, \<open>assert(m_future.valid())\<close>, \<open>m_future.get()\<close>.
  The first argument is \<open>m_future.valid()\<close>; a \<open>std::future\<close> is no longer valid once
  \<open>get\<close> has returned or thrown.
\<close>

definition Future_get ::
  "bool \<Rightarrow> ('e, 'r) Task \<Rightarrow> ('e, 'r) get_result \<times> bool \<times> ('e, 'r) Task" where
  "Future_get future_valid t =
     (case try_run t of
        Crashed c \<Rightarrow> (Aborted c, future_valid, t)
      | Normal t' \<Rightarrow>
          if \<not> future_valid then (Aborted AssertionFailed, future_valid, t')
          else (case future_get (promise t') of
                  Blocked \<Rightarrow> (Blocked, future_valid, t')
                | res \<Rightarrow> (res, False, t')))"

text \<open>
  The state of a Task that was built by the constructor and touched by nothing but
  \<open>try_run\<close>: until the flag is taken, nothing of the result has been written.
\<close>

definition task_ok :: "('e, 'r) Task \<Rightarrow> bool" where
  "task_ok t =
     (m_task_valid t \<and>
      (\<not> m_worked_on t \<longrightarrow> promise t = None \<and> m_future t = None \<and> \<not> m_ready t))"

subsection \<open>Callers racing on one Task\<close>

text \<open>
  Any number of calls of \<open>try_run()\<close> and of \<open>Future::get()\<close> on the same Task, by any
  threads, interleaved at the level of the statements of the source. A call is
  identified by a number; \<open>kind\<close> says whether it is a plain \<open>try_run()\<close> (a worker in
  \<open>do_work\<close>, a thread draining the queue in \<open>ThreadPool::wait\<close>) or a
  \<open>Future::get()\<close>. The program counter of a call says which statement it executes
  next.
\<close>

datatype call_kind = ViaTryRun | ViaGet

datatype ('e, 'r) pc =
    Start
  | Claimed
  | Invoked "'e + 'r"
  | Delivered
  | Signalled
  | TryRunDone
  | GetDone "('e, 'r) get_result"
  | Stopped crash

datatype step_event = Won | Lost | Invoke | Deliver | Signal | Ready | Read

record ('e, 'r) race =
  shared :: "('e, 'r) Task"
  future_valid :: bool
  pcs :: "nat \<Rightarrow> ('e, 'r) pc"
  history :: "(nat \<times> step_event) list"

definition goto ::
  "nat \<Rightarrow> ('e, 'r) pc \<Rightarrow> step_event list \<Rightarrow> ('e, 'r) Task \<Rightarrow> ('e, 'r) race \<Rightarrow> ('e, 'r) race" where
  "goto a l evs t s =
     s\<lparr>shared := t, pcs := (pcs s)(a := l), history := history s @ map (\<lambda>e. (a, e)) evs\<rparr>"

text \<open>
  One statement of call \<open>a\<close>. A call that is blocked inside \<open>std::future::get\<close>, has
  returned or has ended the process does nothing.
\<close>

definition step :: "(nat \<Rightarrow> call_kind) \<Rightarrow> nat \<Rightarrow> ('e, 'r) race \<Rightarrow> ('e, 'r) race" where
  "step kind a s =
     (case pcs s a of
        Start \<Rightarrow>
          (case test_and_set (shared s) of
             (was_set, t) \<Rightarrow>
               if \<not> was_set then goto a Claimed [Won] t s
               else goto a TryRunDone [Lost] t s)
      | Claimed \<Rightarrow>
          if \<not> m_task_valid (shared s) then goto a (Stopped AssertionFailed) [] (shared s) s
          else if m_ready (shared s) then goto a (Stopped AssertionFailed) [] (shared s) s
          else (case invoke (shared s) of (res, t) \<Rightarrow> goto a (Invoked res) [Invoke] t s)
      | Invoked res \<Rightarrow>
          (case deliver res (shared s) of
             Crashed c \<Rightarrow> goto a (Stopped c) [] (shared s) s
           | Normal t \<Rightarrow> goto a Delivered [Deliver] t s)
      | Delivered \<Rightarrow>
          (case signal (shared s) of
             Crashed c \<Rightarrow> goto a (Stopped c) [] (shared s) s
           | Normal t \<Rightarrow> goto a Signalled [Signal] t s)
      | Signalled \<Rightarrow> goto a TryRunDone [Ready] ((shared s)\<lparr>m_ready := True\<rparr>) s
      | TryRunDone \<Rightarrow>
          (case kind a of
             ViaTryRun \<Rightarrow> s
           | ViaGet \<Rightarrow>
               if \<not> future_valid s then goto a (Stopped AssertionFailed) [] (shared s) s
               else (case future_get (promise (shared s)) of
                       Blocked \<Rightarrow> s
                     | res \<Rightarrow> (goto a (GetDone res) [Read] (shared s) s)\<lparr>future_valid := False\<rparr>))
      | GetDone res \<Rightarrow> s
      | Stopped c \<Rightarrow> s)"

text \<open>A schedule is the list of calls in the order in which they take their steps.\<close>

definition run_schedule ::
  "(nat \<Rightarrow> call_kind) \<Rightarrow> nat list \<Rightarrow> ('e, 'r) race \<Rightarrow> ('e, 'r) race" where
  "run_schedule kind sched s = fold (step kind) sched s"

definition race_init :: "('e, 'r) Task \<Rightarrow> ('e, 'r) race" where
  "race_init t = \<lparr>shared = t, future_valid = True, pcs = (\<lambda>a. Start), history = []\<rparr>"

definition did :: "step_event \<Rightarrow> ('e, 'r) race \<Rightarrow> nat list" where
  "did e s = map fst (filter (\<lambda>x. snd x = e) (history s))"

subsection \<open>ThreadPool\<close>

datatype Wait = Async | Sync

text \<open>Who called \<open>try_run()\<close>: worker thread \<open>i\<close> in \<open>do_work\<close>, a thread inside
  \<open>Future::get\<close>, or a thread draining the queue inside \<open>ThreadPool::wait\<close>.\<close>

datatype runner = Worker nat | Getter | Waiter

text \<open>
  The members of \<open>ThreadPool\<close> (the mutex and the condition variables have no state of
  their own here), followed by the memory its shared pointers point into: the Task
  objects made by \<open>std::make_shared\<close>, how many there are, and the record of who called
  \<open>try_run()\<close> on which. The queue \<open>m_tasks\<close> holds Task ids, front first. \<open>m_workers\<close>
  holds the ids of the worker threads. \<open>m_ongoing\<close> is a \<open>std::size_t\<close>; every decrement
  follows an increment by the same thread.
\<close>

record ('e, 'r) ThreadPool =
  m_pool_size :: nat
  m_workers :: "nat list"
  m_quit :: bool
  m_ongoing :: nat
  m_tasks :: "nat list"
  task_objects :: "nat \<Rightarrow> ('e, 'r) Task option"
  allocated :: nat
  run_log :: "(runner \<times> nat) list"

text \<open>\<open>ThreadPool(std::size_t pool_size)\<close>: one worker thread per index below
  \<open>pool_size\<close>; no test of \<open>pool_size\<close>.\<close>

definition ThreadPool_ctor :: "nat \<Rightarrow> ('e, 'r) ThreadPool" where
  "ThreadPool_ctor pool_size =
     \<lparr>m_pool_size = pool_size, m_workers = [0..<pool_size], m_quit = False, m_ongoing = 0,
      m_tasks = [], task_objects = (\<lambda>i. None), allocated = 0, run_log = []\<rparr>"

text \<open>\<open>Future<T>\<close>: the shared pointer \<open>m_task\<close> and whether \<open>m_future\<close> is valid.\<close>

record Future =
  Future_m_task :: nat
  Future_m_future_valid :: bool

text \<open>\<open>ThreadPool::async(func, args...)\<close>.\<close>

definition async ::
  "('a \<Rightarrow> 'e + 'r) \<Rightarrow> 'a \<Rightarrow> ('e, 'r) ThreadPool \<Rightarrow> Future \<times> ('e, 'r) ThreadPool" where
  "async func args p =
     (let wrapped_task = allocated p;
          p1 = p\<lparr>task_objects := (task_objects p)(wrapped_task := Some (Task_ctor func args)),
                 allocated := Suc (allocated p)\<rparr>;
          p2 = p1\<lparr>m_tasks := m_tasks p1 @ [wrapped_task]\<rparr>
      in (\<lparr>Future_m_task = wrapped_task, Future_m_future_valid = True\<rparr>, p2))"

text \<open>\<open>task->try_run()\<close> through a shared pointer, by the given thread.\<close>

definition run_task :: "runner \<Rightarrow> nat \<Rightarrow> ('e, 'r) ThreadPool \<Rightarrow> ('e, 'r) ThreadPool outcome" where
  "run_task who tid p =
     (case task_objects p tid of
        None \<Rightarrow> Crashed NullDereference
      | Some t \<Rightarrow>
          (case try_run t of
             Crashed c \<Rightarrow> Crashed c
           | Normal t' \<Rightarrow>
               Normal (p\<lparr>task_objects := (task_objects p)(tid := Some t'),
                         run_log := run_log p @ [(who, tid)]\<rparr>)))"

text \<open>
  The loop of \<open>wait(Wait::Async)\<close>: leave when the queue is empty; otherwise count the
  task as ongoing, take it from the front of the queue, run it, count it as done.
\<close>

function drain :: "('e, 'r) ThreadPool \<Rightarrow> ('e, 'r) ThreadPool outcome" where
  "drain p =
     (case m_tasks p of
        [] \<Rightarrow> Normal p
      | tid # rest \<Rightarrow>
          (case run_task Waiter tid (p\<lparr>m_ongoing := Suc (m_ongoing p), m_tasks := rest\<rparr>) of
             Crashed c \<Rightarrow> Crashed c
           | Normal p' \<Rightarrow> drain (p'\<lparr>m_ongoing := m_ongoing p' - 1\<rparr>)))"
  by pat_completeness auto
termination
proof (relation "measure (\<lambda>p. length (m_tasks p))")
  show "wf (measure (\<lambda>p. length (m_tasks p)))" by simp
next
  fix p :: "('e, 'r) ThreadPool" and tid rest p'
  assume q: "m_tasks p = tid # rest"
    and r: "run_task Waiter tid (p\<lparr>m_ongoing := Suc (m_ongoing p), m_tasks := rest\<rparr>) = Normal p'"
  from r have "m_tasks p' = rest"
    by (auto simp: run_task_def split: option.splits outcome.splits)
  with q show "(p'\<lparr>m_ongoing := m_ongoing p' - 1\<rparr>, p) \<in> measure (\<lambda>p. length (m_tasks p))"
    by simp
qed

text \<open>
  How \<open>ThreadPool::wait\<close> ends for its caller: it returns, it stays blocked on
  \<open>m_complete_condition\<close> (whose predicate is \<open>m_ongoing == 0\<close>), or the process ends.
\<close>

datatype 'a wait_result = Returns 'a | Blocks 'a | WaitCrashed crash

definition wait :: "Wait \<Rightarrow> ('e, 'r) ThreadPool \<Rightarrow> ('e, 'r) ThreadPool wait_result" where
  "wait how p =
     (case (if how = Async then drain p else Normal p) of
        Crashed c \<Rightarrow> WaitCrashed c
      | Normal p' \<Rightarrow> if m_ongoing p' = 0 then Returns p' else Blocks p')"

text \<open>
  One round of the loop of \<open>do_work\<close> in worker thread \<open>i\<close>: leave on \<open>m_quit\<close>; stay
  blocked on \<open>m_work_condition\<close> while the queue is empty; otherwise take the front task
  and run it.
\<close>

definition do_work :: "nat \<Rightarrow> ('e, 'r) ThreadPool \<Rightarrow> ('e, 'r) ThreadPool outcome" where
  "do_work i p =
     (if m_quit p then Normal p
      else (case m_tasks p of
              [] \<Rightarrow> Normal p
            | tid # rest \<Rightarrow>
                (case run_task (Worker i) tid (p\<lparr>m_ongoing := Suc (m_ongoing p), m_tasks := rest\<rparr>) of
                   Crashed c \<Rightarrow> Crashed c
                 | Normal p' \<Rightarrow> Normal (p'\<lparr>m_ongoing := m_ongoing p' - 1\<rparr>))))"

text \<open>\<open>Future<T>::get()\<close> on a future of this pool.\<close>

definition get ::
  "Future \<Rightarrow> ('e, 'r) ThreadPool \<Rightarrow> ('e, 'r) get_result \<times> Future \<times> ('e, 'r) ThreadPool" where
  "get f p =
     (case run_task Getter (Future_m_task f) p of
        Crashed c \<Rightarrow> (Aborted c, f, p)
      | Normal p' \<Rightarrow>
          if \<not> Future_m_future_valid f then (Aborted AssertionFailed, f, p')
          else (case task_objects p' (Future_m_task f) of
                  None \<Rightarrow> (Aborted NullDereference, f, p')
                | Some t \<Rightarrow>
                    (case future_get (promise t) of
                       Blocked \<Rightarrow> (Blocked, f, p')
                     | res \<Rightarrow> (res, f\<lparr>Future_m_future_valid := False\<rparr>, p'))))"

text \<open>
  A program using a pool: the threads of the program submit callables, call \<open>get\<close> on
  the \<open>k\<close>-th future they were handed, and call \<open>wait\<close>; worker thread \<open>i\<close> takes a
  round of its loop, which only a thread that the constructor started can do. The state
  is the pool and the futures handed out so far.
\<close>

datatype ('a, 'e, 'r) action =
    DoAsync "'a \<Rightarrow> 'e + 'r" 'a
  | DoGet nat
  | DoWait Wait
  | WorkerRound nat

fun exec ::
  "('a, 'e, 'r) action \<Rightarrow> ('e, 'r) ThreadPool \<times> Future list
     \<Rightarrow> (('e, 'r) ThreadPool \<times> Future list) outcome" where
  "exec (DoAsync func args) (p, fs) = (case async func args p of (f, p') \<Rightarrow> Normal (p', fs @ [f]))"
| "exec (DoGet k) (p, fs) =
     (if k < length fs then
        (case get (fs ! k) p of
           (Aborted c, f', p') \<Rightarrow> Crashed c
         | (res, f', p') \<Rightarrow> Normal (p', fs[k := f']))
      else Normal (p, fs))"
| "exec (DoWait how) (p, fs) =
     (case wait how p of
        WaitCrashed c \<Rightarrow> Crashed c
      | Returns p' \<Rightarrow> Normal (p', fs)
      | Blocks p' \<Rightarrow> Normal (p', fs))"
| "exec (WorkerRound i) (p, fs) =
     (if i \<in> set (m_workers p) then
        (case do_work i p of Crashed c \<Rightarrow> Crashed c | Normal p' \<Rightarrow> Normal (p', fs))
      else Normal (p, fs))"

fun exec_all ::
  "('a, 'e, 'r) action list \<Rightarrow> ('e, 'r) ThreadPool \<times> Future list
     \<Rightarrow> (('e, 'r) ThreadPool \<times> Future list) outcome" where
  "exec_all [] st = Normal st"
| "exec_all (x # xs) st =
     (case exec x st of Crashed c \<Rightarrow> Crashed c | Normal st' \<Rightarrow> exec_all xs st')"

text \<open>
  The pools this development talks about: every queued Task id and every handed-out id
  refers to a Task object, and every Task object is in a state \<open>try_run\<close> can leave it in.
\<close>

definition pool_ok :: "('e, 'r) ThreadPool \<Rightarrow> bool" where
  "pool_ok p =
     (list_all (\<lambda>tid. tid < allocated p) (m_tasks p) \<and>
      (\<forall>tid. tid < allocated p \<longrightarrow>
             (case task_objects p tid of None \<Rightarrow> False | Some t \<Rightarrow> task_ok t)))"

section \<open>Notions used to state the properties of Task and ThreadPool\<close>

text \<open>
  What the closure \<open>m_task\<close> puts into the result channel for an outcome of the user's
  callable: the value, or the exception it threw.
\<close>

definition channel_of :: "'e + 'r \<Rightarrow> 'e exception + 'r" where
  "channel_of res = (case res of Inl e \<Rightarrow> Inl (Thrown e) | Inr v \<Rightarrow> Inr v)"

text \<open>
  \<open>complete t0 t\<close>: Task \<open>t\<close> is Task \<open>t0\<close> after one full run of its body: the outcome of
  the callable is in the result channel, the completion signal is set, the ready flag is
  set, and the callable has been called once more than in \<open>t0\<close>.
\<close>

definition complete :: "('e, 'r) Task \<Rightarrow> ('e, 'r) Task \<Rightarrow> bool" where
  "complete t0 t =
     (promise t = Some (channel_of (task t0 ())) \<and> m_future t = Some (Inr ()) \<and> m_ready t \<and>
      m_worked_on t \<and> invocations t = Suc (invocations t0))"

text \<open>The Task with this id exists and its flag \<open>m_worked_on\<close> is set.\<close>

definition claimed_in :: "('e, 'r) ThreadPool \<Rightarrow> nat \<Rightarrow> bool" where
  "claimed_in p tid = (case task_objects p tid of None \<Rightarrow> False | Some t \<Rightarrow> m_worked_on t)"

text \<open>
  Every recorded call of \<open>try_run()\<close> was made from \<open>Future::get\<close> or from
  \<open>ThreadPool::wait\<close>, and every Task whose flag is set has such a recorded call.
\<close>

definition run_by_callers_only :: "('e, 'r) ThreadPool \<Rightarrow> bool" where
  "run_by_callers_only p =
     (list_all (\<lambda>x. fst x = Getter \<or> fst x = Waiter) (run_log p) \<and>
      (\<forall>tid. claimed_in p tid \<longrightarrow> tid \<in> snd ` set (run_log p)))"

definition workerless :: "('e, 'r) ThreadPool \<Rightarrow> bool" where
  "workerless p = (pool_ok p \<and> m_workers p = [] \<and> m_ongoing p = 0 \<and> run_by_callers_only p)"

text \<open>The steps one call has taken so far, in order.\<close>

definition own :: "nat \<Rightarrow> ('e, 'r) race \<Rightarrow> step_event list" where
  "own a s = map snd (filter (\<lambda>x. fst x = a) (history s))"

text \<open>
  The invariant of the race. How far the call that took the flag has come determines
  the state of the shared Task (\<open>shared_at\<close>); every call's program counter determines
  the steps it has taken (\<open>call_ok\<close>).
\<close>

fun phase :: "('e, 'r) pc \<Rightarrow> nat" where
  "phase Start = 0"
| "phase Claimed = 1"
| "phase (Invoked res) = 2"
| "phase Delivered = 3"
| "phase Signalled = 4"
| "phase TryRunDone = 5"
| "phase (GetDone res) = 5"
| "phase (Stopped c) = 5"

definition shared_at :: "nat \<Rightarrow> ('e, 'r) Task \<Rightarrow> ('e, 'r) Task \<Rightarrow> bool" where
  "shared_at n t0 t =
     (m_worked_on t = (1 \<le> n) \<and>
      invocations t = (if 2 \<le> n then Suc (invocations t0) else invocations t0) \<and>
      promise t = (if 3 \<le> n then Some (channel_of (task t0 ())) else None) \<and>
      m_future t = (if 4 \<le> n then Some (Inr ()) else None) \<and>
      m_ready t = (5 \<le> n) \<and>
      task t = task t0 \<and> m_task_valid t)"

fun call_ok ::
  "('e, 'r) pc \<Rightarrow> call_kind \<Rightarrow> step_event list \<Rightarrow> 'e + 'r \<Rightarrow> ('e, 'r) shared_state \<Rightarrow> bool" where
  "call_ok Start k tr res0 pr = (tr = [])"
| "call_ok Claimed k tr res0 pr = (tr = [Won])"
| "call_ok (Invoked res) k tr res0 pr = (tr = [Won, Invoke] \<and> res = res0)"
| "call_ok Delivered k tr res0 pr = (tr = [Won, Invoke, Deliver])"
| "call_ok Signalled k tr res0 pr = (tr = [Won, Invoke, Deliver, Signal])"
| "call_ok TryRunDone k tr res0 pr = (tr = [Won, Invoke, Deliver, Signal, Ready] \<or> tr = [Lost])"
| "call_ok (GetDone res) k tr res0 pr =
     ((tr = [Won, Invoke, Deliver, Signal, Ready, Read] \<or> tr = [Lost, Read]) \<and> k = ViaGet \<and>
      res = future_get (Some (channel_of res0)) \<and> pr = Some (channel_of res0))"
| "call_ok (Stopped c) k tr res0 pr =
     (c = AssertionFailed \<and> k = ViaGet \<and>
      (tr = [Won, Invoke, Deliver, Signal, Ready] \<or> tr = [Lost]))"

definition global_ok :: "('e, 'r) Task \<Rightarrow> ('e, 'r) race \<Rightarrow> bool" where
  "global_ok t0 s =
     (case did Won s of
        [] \<Rightarrow> shared_at 0 t0 (shared s) \<and> history s = [] \<and> future_valid s
      | [w] \<Rightarrow> 1 \<le> phase (pcs s w) \<and> shared_at (phase (pcs s w)) t0 (shared s) \<and>
               did Invoke s = (if 2 \<le> phase (pcs s w) then [w] else [])
      | w # v # ws \<Rightarrow> False)"

definition calls_ok :: "(nat \<Rightarrow> call_kind) \<Rightarrow> ('e, 'r) Task \<Rightarrow> ('e, 'r) race \<Rightarrow> bool" where
  "calls_ok kind t0 s =
     (\<forall>a. call_ok (pcs s a) (kind a) (own a s) (task t0 ()) (promise (shared s)))"

definition race_inv :: "(nat \<Rightarrow> call_kind) \<Rightarrow> ('e, 'r) Task \<Rightarrow> ('e, 'r) race \<Rightarrow> bool" where
  "race_inv kind t0 s = (global_ok t0 s \<and> calls_ok kind t0 s)"

subsection \<open>Concrete callables, schedules and pools\<close>

text \<open>\<open>int func(int a, int b) { return 2 * a + b; }\<close> of the tests, and a callable that
  throws.\<close>

definition free_function :: "int \<times> int \<Rightarrow> unit + int" where
  "free_function ab = (case ab of (a, b) \<Rightarrow> Inr (2 * a + b))"

definition throwing_function :: "int \<Rightarrow> string + int" where
  "throwing_function x = Inl ''boom''"

text \<open>
  Call 0 is a \<open>Future::get()\<close>, every other call a plain \<open>try_run()\<close>. In the schedule a
  worker (call 1) takes the flag first; the \<open>get()\<close> loses the race, finds the result
  once the worker has delivered it and returns; the worker finishes afterwards.
\<close>

definition one_getter :: "nat \<Rightarrow> call_kind" where
  "one_getter a = (if a = 0 then ViaGet else ViaTryRun)"

definition worker_first :: "nat list" where
  "worker_first = [1, 0, 1, 1, 0, 1, 1, 0]"

definition worker_first_until_read :: "nat list" where
  "worker_first_until_read = [1, 0, 1, 1, 0]"


text \<open>A program on a pool of size 0: submit, a round of a worker that does not exist,
  a blocking wait, and \<open>get\<close> on the future.\<close>

definition workerless_program :: "(int \<times> int, unit, int) action list" where
  "workerless_program = [DoAsync free_function (5, 3), WorkerRound 0, DoWait Sync, DoGet 0]"

text \<open>A program on a pool of size 1: submit, then a round of the worker.\<close>

definition one_worker_program :: "(int \<times> int, unit, int) action list" where
  "one_worker_program = [DoAsync free_function (5, 3), WorkerRound 0]"

text \<open>
  \<open>ErasuredType<4>\<close> objects: object 1 holds an \<open>S2<8>\<close> (on the heap), object 2 a
  \<open>uint32_t\<close> (inline).
\<close>

definition heap_and_inline :: world where
  "heap_and_inline =
     ErasuredType_ctor 4 16 working_alloc 2 uint32_t
       (ErasuredType_ctor 4 16 working_alloc 1 S2_8 empty_world)"

section \<open>Properties of the storage and of the type-erased container\<close>

lemmas upd_defs = emit_def set_valid_def set_storage_def set_mover_def set_destroyer_def



lemma move_assign_invalid_src:
  assumes "\<not> m_valid (objs w rhs)" and "ptrs_ok (objs w this)"
  shows "\<exists>w'. ErasuredType_move_assign this rhs w = Inr w'
      \<and> trace w' = trace w @ held_value_destroyed this w
      \<and> \<not> m_valid (objs w' this) \<and> \<not> m_valid (objs w' rhs)
      \<and> m_mover (objs w' this) = m_mover (objs w this)
      \<and> m_destroyer (objs w' this) = m_destroyer (objs w this)
      \<and> m_storage (objs w' this) = m_storage (objs w this)
      \<and> (\<forall>x. x \<noteq> this \<longrightarrow> objs w' x = objs w x)"
  using assms
  by (auto simp: ErasuredType_move_assign_def call_destroyer_def ptrs_ok_def upd_defs held_value_destroyed_def split: option.splits)


lemma world_ok_empty: "world_ok empty_world"
  by (simp add: world_ok_def empty_world_def ptrs_ok_def)


lemma world_ok_ctor: "world_ok w \<Longrightarrow> world_ok (ErasuredType_ctor N A al this T w)"
  by (auto simp: world_ok_def ErasuredType_ctor_def ptrs_ok_def emit_def split: prod.splits)





lemma instance1_eq:
  "instance1 = \<lparr>objs = (objs empty_world)(1 := \<lparr>m_valid = True, m_storage = inline_storage_t,
                    m_mover = Some S2_8, m_destroyer = Some S2_8\<rparr>),
                trace = [Construct S2_8 (InlineAddr 1)]\<rparr>"
  by (simp add: instance1_def ErasuredType_ctor_def Storage_ctor_def S2_8_def emit_def empty_world_def)

lemma world_ok_instance1: "world_ok instance1"
  unfolding instance1_def by (rule world_ok_ctor[OF world_ok_empty])


subsection \<open>Inline or heap placement\<close>

text \<open>
  Claim C6. Constructing \<open>Storage<N>\<close> from a value of type \<open>T\<close> places the value inline
  exactly when \<open>sizeof(T) \<le> N\<close> and \<open>alignof(T)\<close> is at most the platform's maximum
  alignment, and then the allocator is not called. Otherwise the allocator is called
  once, for \<open>sizeof(T)\<close> bytes at alignment \<open>alignof(T)\<close>, the storage holds the address it
  returned together with the size \<open>sizeof(T)\<close>, and \<open>is_inlined()\<close> is false. In both cases
  the value is constructed at the address \<open>pointer()\<close> reports afterwards: the inline
  buffer of the object, or the address the allocator returned.
\<close>

theorem Storage_ctor_inline_iff_fits:
  "is_inlined (fst (Storage_ctor N max_align std_alloc self T))
     = (sizeof T \<le> N \<and> alignof T \<le> max_align)
   \<and> filter is_Alloc (snd (Storage_ctor N max_align std_alloc self T)) =
       (if sizeof T \<le> N \<and> alignof T \<le> max_align then []
        else [Alloc (sizeof T) (alignof T) (std_alloc (alignof T) (sizeof T))])
   \<and> fst (Storage_ctor N max_align std_alloc self T) =
       (if sizeof T \<le> N \<and> alignof T \<le> max_align then inline_storage_t
        else Allocation (std_alloc (alignof T) (sizeof T)) (sizeof T))
   \<and> snd (Storage_ctor N max_align std_alloc self T) =
       filter is_Alloc (snd (Storage_ctor N max_align std_alloc self T))
         @ [Construct T (pointer self (fst (Storage_ctor N max_align std_alloc self T)))]
   \<and> pointer self (fst (Storage_ctor N max_align std_alloc self T)) =
       (if sizeof T \<le> N \<and> alignof T \<le> max_align then InlineAddr self
        else std_alloc (alignof T) (sizeof T))"
  by (simp add: Storage_ctor_def is_inlined_def aligned_alloc_def Let_def pointer_def)

theorem Storage_ctor_inline_iff_fits_witness:
  "is_inlined (fst (Storage_ctor 4 16 working_alloc 0 uint32_t))
   \<and> \<not> is_inlined (fst (Storage_ctor 4 16 working_alloc 0 int64_t))
   \<and> fst (Storage_ctor 4 16 working_alloc 0 int64_t) = Allocation (HeapAddr 4096) 8
   \<and> filter is_Alloc (snd (Storage_ctor 4 16 working_alloc 0 int64_t)) = [Alloc 8 8 (HeapAddr 4096)]
   \<and> filter is_Alloc (snd (Storage_ctor 4 16 working_alloc 0 uint32_t)) = []"
  using Storage_ctor_inline_iff_fits[of 4 16 working_alloc 0 uint32_t]
        Storage_ctor_inline_iff_fits[of 4 16 working_alloc 0 int64_t]
  by (simp add: uint32_t_def int64_t_def is_inlined_def working_alloc_def)

subsection \<open>Allocation failure\<close>




subsection \<open>Moving a container\<close>




subsection \<open>Moving from an invalid container\<close>

text \<open>
  Claim C9. Move-assigning an invalid source \<open>rhs\<close> into a destination \<open>this\<close> first calls
  the destination's destroyer on the value it holds, if it is valid, and does nothing
  else; afterwards both are invalid, and the destination's function pointers and storage
  are the ones it had.
\<close>

theorem move_assign_from_invalid_source:
  assumes "\<not> m_valid (objs w rhs)" and "ptrs_ok (objs w this)"
  shows "\<exists>w'. ErasuredType_move_assign this rhs w = Inr w'
      \<and> trace w' = trace w @ held_value_destroyed this w
      \<and> \<not> m_valid (objs w' this) \<and> \<not> m_valid (objs w' rhs)
      \<and> m_mover (objs w' this) = m_mover (objs w this)
      \<and> m_destroyer (objs w' this) = m_destroyer (objs w this)
      \<and> m_storage (objs w' this) = m_storage (objs w this)"
  using move_assign_invalid_src[OF assms] by blast

theorem move_assign_from_invalid_source_witness:
  "\<not> m_valid (objs instance1 2) \<and> ptrs_ok (objs instance1 1)
   \<and> (\<exists>w'. ErasuredType_move_assign 1 2 instance1 = Inr w'
          \<and> trace w' = [Construct S2_8 (InlineAddr 1), Destroy S2_8 (InlineAddr 1)]
          \<and> \<not> m_valid (objs w' 1) \<and> \<not> m_valid (objs w' 2)
          \<and> m_mover (objs w' 1) = Some S2_8 \<and> m_destroyer (objs w' 1) = Some S2_8)"
proof -
  have a: "\<not> m_valid (objs instance1 2)" by (simp add: instance1_eq empty_world_def)
  have b: "ptrs_ok (objs instance1 1)" using world_ok_instance1 by (simp add: world_ok_def)
  have h: "held_value_destroyed 1 instance1 = [Destroy S2_8 (InlineAddr 1)]"
    by (simp add: held_value_destroyed_def instance1_eq pointer_def)
  have m: "m_mover (objs instance1 1) = Some S2_8" "m_destroyer (objs instance1 1) = Some S2_8"
    "trace instance1 = [Construct S2_8 (InlineAddr 1)]"
    by (simp_all add: instance1_eq)
  from move_assign_from_invalid_source[OF a b] a b h m show ?thesis by auto
qed

subsection \<open>The valid flag guards the function pointers\<close>



section \<open>Properties of Task, Future and ThreadPool\<close>

subsection \<open>One thread at a time\<close>

lemma deliver_fresh:
  "promise t = None \<Longrightarrow> deliver res t = Normal (t\<lparr>promise := Some (channel_of res)\<rparr>)"
  by (cases res) (simp_all add: deliver_def set_value_def set_exception_def channel_of_def)

lemma signal_fresh:
  "m_future t = None \<Longrightarrow> signal t = Normal (t\<lparr>m_future := Some (Inr ())\<rparr>)"
  by (simp add: signal_def set_value_def)

lemma try_run_unclaimed:
  assumes "task_ok t" and "\<not> m_worked_on t"
  shows "try_run t = Normal (t\<lparr>m_worked_on := True, invocations := Suc (invocations t),
                              promise := Some (channel_of (task t ())),
                              m_future := Some (Inr ()), m_ready := True\<rparr>)"
  using assms
  by (simp add: try_run_def test_and_set_def task_ok_def m_task_call_def invoke_def
        deliver_fresh signal_fresh)

lemma try_run_claimed:
  assumes "m_worked_on t"
  shows "try_run t = Normal t"
  using assms by (simp add: try_run_def test_and_set_def)

lemma try_run_ok:
  assumes "task_ok t"
  shows "\<exists>t'. try_run t = Normal t' \<and> task_ok t' \<and> m_worked_on t' \<and> task t' = task t
            \<and> (m_worked_on t \<longrightarrow> t' = t)
            \<and> (\<not> m_worked_on t \<longrightarrow> complete t t')"
proof (cases "m_worked_on t")
  case True
  with assms show ?thesis by (simp add: try_run_claimed)
next
  case False
  with assms show ?thesis
    by (simp add: try_run_unclaimed[OF assms False] task_ok_def complete_def)
qed

lemma pool_ok_lookup:
  assumes "pool_ok p" and "tid < allocated p"
  shows "\<exists>t. task_objects p tid = Some t \<and> task_ok t"
  using assms by (auto simp: pool_ok_def split: option.splits)

lemma run_task_ok:
  assumes "pool_ok p" and "tid < allocated p" and "task_objects p tid = Some t"
  shows "\<exists>t'. try_run t = Normal t' \<and> task_ok t' \<and> m_worked_on t'
           \<and> (m_worked_on t \<longrightarrow> t' = t) \<and> (\<not> m_worked_on t \<longrightarrow> complete t t')
           \<and> run_task who tid p =
                Normal (p\<lparr>task_objects := (task_objects p)(tid := Some t'),
                          run_log := run_log p @ [(who, tid)]\<rparr>)
           \<and> pool_ok (p\<lparr>task_objects := (task_objects p)(tid := Some t'),
                          run_log := run_log p @ [(who, tid)]\<rparr>)"
proof -
  from pool_ok_lookup[OF assms(1,2)] assms(3) have ok: "task_ok t" by simp
  from try_run_ok[OF ok] obtain t' where t': "try_run t = Normal t'" "task_ok t'" "m_worked_on t'"
    "m_worked_on t \<longrightarrow> t' = t" "\<not> m_worked_on t \<longrightarrow> complete t t'" by blast
  have "pool_ok (p\<lparr>task_objects := (task_objects p)(tid := Some t'),
                          run_log := run_log p @ [(who, tid)]\<rparr>)"
    using assms(1) t'(2) by (auto simp: pool_ok_def)
  with t' assms(3) show ?thesis by (simp add: run_task_def)
qed

lemma pool_ok_dequeue:
  assumes "pool_ok p" and "m_tasks p = tid # rest"
  shows "pool_ok (p\<lparr>m_ongoing := n, m_tasks := rest\<rparr>) \<and> tid < allocated p"
  using assms by (auto simp: pool_ok_def)

lemma drain_ok:
  assumes "pool_ok p"
  shows "\<exists>p'. drain p = Normal p' \<and> pool_ok p' \<and> m_tasks p' = [] \<and> m_ongoing p' = m_ongoing p
           \<and> run_log p' = run_log p @ map (Pair Waiter) (m_tasks p)
           \<and> m_workers p' = m_workers p \<and> m_quit p' = m_quit p \<and> m_pool_size p' = m_pool_size p
           \<and> allocated p' = allocated p
           \<and> (\<forall>tid. claimed_in p tid \<longrightarrow> task_objects p' tid = task_objects p tid)
           \<and> (\<forall>tid. tid \<notin> set (m_tasks p) \<longrightarrow> task_objects p' tid = task_objects p tid)
           \<and> (\<forall>tid \<in> set (m_tasks p). claimed_in p' tid)
           \<and> (\<forall>tid \<in> set (m_tasks p). \<forall>t. task_objects p tid = Some t \<and> \<not> m_worked_on t \<longrightarrow>
                  (\<exists>t'. task_objects p' tid = Some t' \<and> complete t t'))"
  using assms
proof (induction "m_tasks p" arbitrary: p)
  case Nil
  then have "drain p = Normal p" by (simp add: drain.simps[of p])
  with Nil show ?case by simp
next
  case (Cons tid rest)
  let ?q = "p\<lparr>m_ongoing := Suc (m_ongoing p), m_tasks := rest\<rparr>"
  from Cons(2) have mt: "m_tasks p = tid # rest" by simp
  from pool_ok_dequeue[OF Cons(3) mt] have okq: "pool_ok ?q" and lt: "tid < allocated ?q" by simp_all
  from pool_ok_lookup[OF okq lt] obtain t where t: "task_objects ?q tid = Some t" by blast
  from run_task_ok[OF okq lt t, of Waiter]
  obtain t' where t': "m_worked_on t'" "m_worked_on t \<longrightarrow> t' = t"
      "\<not> m_worked_on t \<longrightarrow> complete t t'"
    and r: "run_task Waiter tid ?q =
              Normal (?q\<lparr>task_objects := (task_objects ?q)(tid := Some t'),
                        run_log := run_log ?q @ [(Waiter, tid)]\<rparr>)"
    and ok1: "pool_ok (?q\<lparr>task_objects := (task_objects ?q)(tid := Some t'),
                        run_log := run_log ?q @ [(Waiter, tid)]\<rparr>)"
    by blast
  let ?p1 = "?q\<lparr>task_objects := (task_objects ?q)(tid := Some t'),
                        run_log := run_log ?q @ [(Waiter, tid)]\<rparr>"
  let ?p2 = "?p1\<lparr>m_ongoing := m_ongoing ?p1 - 1\<rparr>"
  have ok2: "pool_ok ?p2" using ok1 by (simp add: pool_ok_def)
  have mt2: "rest = m_tasks ?p2" by simp
  from Cons(1)[OF mt2 ok2]
  obtain p' where d: "drain ?p2 = Normal p'" and ok': "pool_ok p'" and e: "m_tasks p' = []"
    and o: "m_ongoing p' = m_ongoing ?p2"
    and l: "run_log p' = run_log ?p2 @ map (Pair Waiter) (m_tasks ?p2)"
    and w: "m_workers p' = m_workers ?p2" "m_quit p' = m_quit ?p2" "m_pool_size p' = m_pool_size ?p2"
           "allocated p' = allocated ?p2"
    and c: "\<forall>tid. claimed_in ?p2 tid \<longrightarrow> task_objects p' tid = task_objects ?p2 tid"
    and n: "\<forall>tid. tid \<notin> set (m_tasks ?p2) \<longrightarrow> task_objects p' tid = task_objects ?p2 tid"
    and a: "\<forall>tid \<in> set (m_tasks ?p2). claimed_in p' tid"
    and f: "\<forall>tid \<in> set (m_tasks ?p2). \<forall>t. task_objects ?p2 tid = Some t \<and> \<not> m_worked_on t \<longrightarrow>
                  (\<exists>t'. task_objects p' tid = Some t' \<and> complete t t')"
    by blast
  have dr: "drain p = Normal p'"
    using mt r d by (simp add: drain.simps[of p])
  have c2: "claimed_in ?p2 tid" using t'(1) by (simp add: claimed_in_def)
  have keep: "\<And>x. claimed_in p x \<Longrightarrow> task_objects ?p2 x = task_objects p x \<and> claimed_in ?p2 x"
    using t t'(2) by (auto simp: claimed_in_def split: option.splits)
  have "\<forall>x. claimed_in p x \<longrightarrow> task_objects p' x = task_objects p x"
    using c keep by metis
  moreover have "\<forall>x. x \<notin> set (m_tasks p) \<longrightarrow> task_objects p' x = task_objects p x"
    using n mt by simp
  moreover have "\<forall>x \<in> set (m_tasks p). claimed_in p' x"
  proof
    fix x assume "x \<in> set (m_tasks p)"
    with mt have "x = tid \<or> x \<in> set rest" by simp
    then show "claimed_in p' x"
    proof
      assume "x = tid"
      with c c2 show ?thesis by (simp add: claimed_in_def)
    next
      assume "x \<in> set rest"
      with a show ?thesis by simp
    qed
  qed
  moreover have "\<forall>x \<in> set (m_tasks p). \<forall>u. task_objects p x = Some u \<and> \<not> m_worked_on u \<longrightarrow>
                  (\<exists>u'. task_objects p' x = Some u' \<and> complete u u')"
  proof (intro ballI allI impI)
    fix x u assume x: "x \<in> set (m_tasks p)" and u: "task_objects p x = Some u \<and> \<not> m_worked_on u"
    show "\<exists>u'. task_objects p' x = Some u' \<and> complete u u'"
    proof (cases "x = tid")
      case True
      with u t have "u = t" by simp
      with u t'(3) have "complete u t'" by simp
      moreover from c c2 True have "task_objects p' x = Some t'" by simp
      ultimately show ?thesis by blast
    next
      case False
      with x mt have "x \<in> set (m_tasks ?p2)" by simp
      moreover from False u have "task_objects ?p2 x = Some u \<and> \<not> m_worked_on u" by simp
      ultimately show ?thesis using f by blast
    qed
  qed
  ultimately show ?case using dr ok' e o l w mt by simp
qed

lemma pool_ok_ctor: "pool_ok (ThreadPool_ctor n)"
  by (simp add: pool_ok_def ThreadPool_ctor_def)

lemma task_ok_ctor: "task_ok (Task_ctor func args)"
  by (simp add: task_ok_def Task_ctor_def)

lemma async_ok:
  assumes "pool_ok p"
  shows "async func args p =
           (\<lparr>Future_m_task = allocated p, Future_m_future_valid = True\<rparr>,
            p\<lparr>task_objects := (task_objects p)(allocated p := Some (Task_ctor func args)),
              allocated := Suc (allocated p),
              m_tasks := m_tasks p @ [allocated p]\<rparr>)
         \<and> pool_ok (p\<lparr>task_objects := (task_objects p)(allocated p := Some (Task_ctor func args)),
              allocated := Suc (allocated p),
              m_tasks := m_tasks p @ [allocated p]\<rparr>)"
proof -
  have "pool_ok (p\<lparr>task_objects := (task_objects p)(allocated p := Some (Task_ctor func args)),
              allocated := Suc (allocated p),
              m_tasks := m_tasks p @ [allocated p]\<rparr>)"
    using assms task_ok_ctor[of func args]
    by (auto simp: pool_ok_def list_all_iff less_Suc_eq)
  then show ?thesis by (simp add: async_def Let_def)
qed

lemma run_task_Normal:
  assumes "run_task who tid p = Normal p'" and "pool_ok p"
  shows "pool_ok p' \<and> run_log p' = run_log p @ [(who, tid)] \<and> m_workers p' = m_workers p
         \<and> m_tasks p' = m_tasks p \<and> allocated p' = allocated p \<and> m_ongoing p' = m_ongoing p
         \<and> (\<forall>x. x \<noteq> tid \<longrightarrow> task_objects p' x = task_objects p x)"
proof -
  from assms(1) obtain t t' where t: "task_objects p tid = Some t" and r: "try_run t = Normal t'"
    and p': "p' = p\<lparr>task_objects := (task_objects p)(tid := Some t'),
                    run_log := run_log p @ [(who, tid)]\<rparr>"
    by (auto simp: run_task_def split: option.splits outcome.splits)
  have "pool_ok p'"
  proof (cases "tid < allocated p")
    case True
    from run_task_ok[OF assms(2) True t, of who] r show ?thesis unfolding p' by simp
  next
    case False
    with assms(2) show ?thesis unfolding p' by (auto simp: pool_ok_def)
  qed
  then show ?thesis unfolding p' by simp
qed

lemma workerless_run_task:
  assumes "run_task who tid p = Normal p'" and "workerless p" and "who = Getter \<or> who = Waiter"
  shows "workerless p'"
proof -
  from assms(2) have ok: "pool_ok p" by (simp add: workerless_def)
  from run_task_Normal[OF assms(1) ok]
  have a: "pool_ok p'" "run_log p' = run_log p @ [(who, tid)]" "m_workers p' = m_workers p"
    "m_ongoing p' = m_ongoing p"
    and fr: "\<forall>x. x \<noteq> tid \<longrightarrow> task_objects p' x = task_objects p x" by simp_all
  have "\<And>x. claimed_in p' x \<Longrightarrow> x \<in> snd ` set (run_log p')"
  proof -
    fix x assume c: "claimed_in p' x"
    show "x \<in> snd ` set (run_log p')"
    proof (cases "x = tid")
      case True
      then show ?thesis using a(2) by force
    next
      case False
      with fr c have "claimed_in p x" by (simp add: claimed_in_def)
      with assms(2) have "x \<in> snd ` set (run_log p)"
        by (simp add: workerless_def run_by_callers_only_def)
      then show ?thesis using a(2) by auto
    qed
  qed
  with a assms(2,3) show ?thesis
    by (auto simp: workerless_def run_by_callers_only_def)
qed

lemma workerless_drain:
  assumes "workerless p"
  shows "\<exists>p'. drain p = Normal p' \<and> workerless p' \<and> m_ongoing p' = m_ongoing p"
proof -
  from assms have ok: "pool_ok p" by (simp add: workerless_def)
  from drain_ok[OF ok] obtain p' where d: "drain p = Normal p'" and ok': "pool_ok p'"
    and o: "m_ongoing p' = m_ongoing p"
    and l: "run_log p' = run_log p @ map (Pair Waiter) (m_tasks p)"
    and w: "m_workers p' = m_workers p"
    and n: "\<forall>tid. tid \<notin> set (m_tasks p) \<longrightarrow> task_objects p' tid = task_objects p tid"
    by blast
  have "\<And>x. claimed_in p' x \<Longrightarrow> x \<in> snd ` set (run_log p')"
  proof -
    fix x assume c: "claimed_in p' x"
    show "x \<in> snd ` set (run_log p')"
    proof (cases "x \<in> set (m_tasks p)")
      case True
      then show ?thesis using l by force
    next
      case False
      with n c have "claimed_in p x" by (simp add: claimed_in_def)
      with assms have "x \<in> snd ` set (run_log p)"
        by (simp add: workerless_def run_by_callers_only_def)
      then show ?thesis using l by auto
    qed
  qed
  moreover have "list_all (\<lambda>x. fst x = Getter \<or> fst x = Waiter) (run_log p')"
    using assms l by (auto simp: workerless_def run_by_callers_only_def list_all_iff)
  ultimately have "workerless p'" using ok' w o assms
    by (simp add: workerless_def run_by_callers_only_def)
  with d o show ?thesis by blast
qed

lemma get_Normal:
  assumes "get f p = (res, f', p')"
  shows "(\<exists>c. res = Aborted c) \<or> run_task Getter (Future_m_task f) p = Normal p'"
  using assms
  by (auto simp: get_def split: outcome.splits if_splits option.splits get_result.splits)

lemma workerless_exec:
  assumes "workerless p" and "exec a (p, fs) = Normal (p', fs')"
  shows "workerless p'"
proof (cases a)
  case (DoAsync func args)
  from assms(1) have ok: "pool_ok p" by (simp add: workerless_def)
  from async_ok[OF ok, of func args] assms(2) DoAsync
  have p': "p' = p\<lparr>task_objects := (task_objects p)(allocated p := Some (Task_ctor func args)),
              allocated := Suc (allocated p), m_tasks := m_tasks p @ [allocated p]\<rparr>"
    and ok': "pool_ok p'" by auto
  have "\<And>x. claimed_in p' x \<Longrightarrow> claimed_in p x"
    unfolding p' by (auto simp: claimed_in_def Task_ctor_def split: if_splits)
  with assms(1) ok' show ?thesis
    unfolding workerless_def run_by_callers_only_def by (auto simp: p')
next
  case (DoGet k)
  show ?thesis
  proof (cases "k < length fs")
    case True
    obtain res f' q where g: "get (fs ! k) p = (res, f', q)" by (cases "get (fs ! k) p") auto
    with assms(2) DoGet True have "(\<forall>c. res \<noteq> Aborted c) \<and> q = p'"
      by (auto split: get_result.splits)
    with get_Normal[OF g] have "run_task Getter (Future_m_task (fs ! k)) p = Normal p'" by auto
    from workerless_run_task[OF this assms(1)] show ?thesis by simp
  next
    case False
    with assms DoGet show ?thesis by simp
  qed
next
  case (DoWait how)
  show ?thesis
  proof (cases how)
    case Async
    from workerless_drain[OF assms(1)] obtain q where "drain p = Normal q" "workerless q" by blast
    with assms(2) DoWait Async show ?thesis
      by (auto simp: wait_def split: if_splits)
  next
    case Sync
    with assms DoWait show ?thesis by (auto simp: wait_def split: if_splits)
  qed
next
  case (WorkerRound i)
  with assms show ?thesis by (simp add: workerless_def)
qed

lemma workerless_exec_all:
  assumes "workerless p" and "exec_all acts (p, fs) = Normal (p', fs')"
  shows "workerless p'"
  using assms
proof (induction acts arbitrary: p fs)
  case Nil
  then show ?case by simp
next
  case (Cons a acts)
  from Cons.prems(2) obtain q gs where e: "exec a (p, fs) = Normal (q, gs)"
    and r: "exec_all acts (q, gs) = Normal (p', fs')"
    by (auto split: outcome.splits)
  from workerless_exec[OF Cons.prems(1) e] have "workerless q" .
  from Cons.IH[OF this r] show ?case .
qed

lemma workerless_ctor: "workerless (ThreadPool_ctor 0)"
  by (simp add: workerless_def pool_ok_ctor run_by_callers_only_def)
     (simp add: ThreadPool_ctor_def claimed_in_def)

lemma future_get_Some: "future_get (Some x) \<noteq> Blocked"
  by (cases x) (simp_all add: future_get_def)

lemma get_unclaimed:
  assumes "task_ok t" and "\<not> m_worked_on t" and "task_objects p (Future_m_task f) = Some t"
      and "Future_m_future_valid f"
  shows "\<exists>t'. complete t t' \<and>
           get f p = (future_get (Some (channel_of (task t ()))),
                      f\<lparr>Future_m_future_valid := False\<rparr>,
                      p\<lparr>task_objects := (task_objects p)(Future_m_task f := Some t'),
                        run_log := run_log p @ [(Getter, Future_m_task f)]\<rparr>)"
proof -
  from try_run_ok[OF assms(1)] assms(2) obtain t' where r: "try_run t = Normal t'"
    and c: "complete t t'" by blast
  from c have pr: "promise t' = Some (channel_of (task t ()))" by (simp add: complete_def)
  have "get f p = (future_get (Some (channel_of (task t ()))),
                      f\<lparr>Future_m_future_valid := False\<rparr>,
                      p\<lparr>task_objects := (task_objects p)(Future_m_task f := Some t'),
                        run_log := run_log p @ [(Getter, Future_m_task f)]\<rparr>)"
    using assms(3,4) r pr future_get_Some[of "channel_of (task t ())"]
    by (cases "future_get (Some (channel_of (task t ())))")
       (simp_all add: get_def run_task_def)
  with c show ?thesis by blast
qed

lemma workerless_submit:
  assumes w: "workerless p"
  shows "case async func args p of
               (f, p1) \<Rightarrow>
                 \<not> claimed_in p1 (Future_m_task f)
                 \<and> wait Sync p1 = Returns p1
                 \<and> fst (get f p1) = future_get (Some (channel_of (func args)))
                 \<and> run_log (snd (snd (get f p1))) = run_log p @ [(Getter, Future_m_task f)]
                 \<and> (\<exists>p2 t'. wait Async p1 = Returns p2
                        \<and> run_log p2 = run_log p @ map (Pair Waiter) (m_tasks p1)
                        \<and> task_objects p2 (Future_m_task f) = Some t'
                        \<and> complete (Task_ctor func args) t')"
proof -
  from w have ok: "pool_ok p" and o: "m_ongoing p = 0" by (simp_all add: workerless_def)
  let ?tid = "allocated p"
  let ?f = "\<lparr>Future_m_task = ?tid, Future_m_future_valid = True\<rparr>"
  let ?p1 = "p\<lparr>task_objects := (task_objects p)(?tid := Some (Task_ctor func args)),
              allocated := Suc ?tid, m_tasks := m_tasks p @ [?tid]\<rparr>"
  from async_ok[OF ok, of func args] have a: "async func args p = (?f, ?p1)" and ok1: "pool_ok ?p1"
    by simp_all
  have t: "task_objects ?p1 (Future_m_task ?f) = Some (Task_ctor func args)" by simp
  have nc: "\<not> m_worked_on (Task_ctor func args)" by (simp add: Task_ctor_def)
  have tk: "task (Task_ctor func args) () = func args" by (simp add: Task_ctor_def)
  have c1: "\<not> claimed_in ?p1 (Future_m_task ?f)" by (simp add: claimed_in_def Task_ctor_def)
  have c2: "wait Sync ?p1 = Returns ?p1" using o by (simp add: wait_def)
  have fv: "Future_m_future_valid ?f" by simp
  from get_unclaimed[OF task_ok_ctor nc t fv] tk
  have c3: "fst (get ?f ?p1) = future_get (Some (channel_of (func args)))"
    and c4: "run_log (snd (snd (get ?f ?p1))) = run_log p @ [(Getter, Future_m_task ?f)]"
    by auto
  from drain_ok[OF ok1]
  obtain p2 where d2: "drain ?p1 = Normal p2" and o2: "m_ongoing p2 = m_ongoing ?p1"
    and l2: "run_log p2 = run_log ?p1 @ map (Pair Waiter) (m_tasks ?p1)"
    and f2: "\<forall>tid \<in> set (m_tasks ?p1). \<forall>t. task_objects ?p1 tid = Some t \<and> \<not> m_worked_on t \<longrightarrow>
                  (\<exists>t'. task_objects p2 tid = Some t' \<and> complete t t')"
    by blast
  have w2: "wait Async ?p1 = Returns p2" using d2 o2 o by (simp add: wait_def)
  from f2 t nc obtain t' where "task_objects p2 ?tid = Some t'" "complete (Task_ctor func args) t'"
    by auto
  with w2 l2 have c5: "\<exists>p2 t'. wait Async ?p1 = Returns p2
                        \<and> run_log p2 = run_log p @ map (Pair Waiter) (m_tasks ?p1)
                        \<and> task_objects p2 (Future_m_task ?f) = Some t'
                        \<and> complete (Task_ctor func args) t'"
    by auto
  show ?thesis
    unfolding a using c1 c2 c3 c4 c5 by simp
qed

subsection \<open>The race: the invariant and its preservation\<close>

lemma goto_simps [simp]:
  "shared (goto a l evs t s) = t"
  "pcs (goto a l evs t s) = (pcs s)(a := l)"
  "history (goto a l evs t s) = history s @ map (\<lambda>e. (a, e)) evs"
  "future_valid (goto a l evs t s) = future_valid s"
  by (simp_all add: goto_def)

lemma own_goto [simp]:
  "own b (goto a l evs t s) = (if b = a then own a s @ evs else own b s)"
  by (induction evs) (auto simp: own_def goto_def)

lemma own_future_valid [simp]: "own b (s\<lparr>future_valid := v\<rparr>) = own b s"
  by (simp add: own_def)

lemma did_future_valid [simp]: "did e (s\<lparr>future_valid := v\<rparr>) = did e s"
  by (simp add: did_def)

lemma did_goto [simp]:
  "did e (goto a l evs t s) = did e s @ map (\<lambda>x. a) (filter (\<lambda>x. x = e) evs)"
  by (induction evs) (auto simp: did_def goto_def)

lemma own_did: "e \<in> set (own a s) \<longleftrightarrow> a \<in> set (did e s)"
  by (force simp: own_def did_def)

lemma did_empty_history: "history s = [] \<Longrightarrow> did e s = []"
  by (simp add: did_def)

lemma own_empty_history: "history s = [] \<Longrightarrow> own a s = []"
  by (simp add: own_def)

lemma race_inv_init:
  assumes "task_ok t0" and "\<not> m_worked_on t0"
  shows "race_inv kind t0 (race_init t0)"
  using assms
  by (simp add: race_inv_def global_ok_def calls_ok_def race_init_def did_def own_def
        shared_at_def task_ok_def)

lemma call_ok_promise:
  assumes "call_ok l k tr res0 pr" and "pr' = pr \<or> pr' = Some (channel_of res0)"
  shows "call_ok l k tr res0 pr'"
  using assms by (cases l) auto

lemma calls_ok_goto:
  assumes "calls_ok kind t0 s"
      and "promise t = promise (shared s) \<or> promise t = Some (channel_of (task t0 ()))"
      and "call_ok l (kind a) (own a s @ evs) (task t0 ()) (promise t)"
  shows "calls_ok kind t0 (goto a l evs t s)"
  unfolding calls_ok_def
proof
  fix b
  show "call_ok (pcs (goto a l evs t s) b) (kind b) (own b (goto a l evs t s)) (task t0 ())
          (promise (shared (goto a l evs t s)))"
  proof (cases "b = a")
    case True
    with assms(3) show ?thesis by simp
  next
    case False
    from assms(1) have "call_ok (pcs s b) (kind b) (own b s) (task t0 ()) (promise (shared s))"
      by (simp add: calls_ok_def)
    from call_ok_promise[OF this assms(2)] False show ?thesis by simp
  qed
qed

lemma calls_ok_future_valid [simp]:
  "calls_ok kind t0 (s\<lparr>future_valid := v\<rparr>) = calls_ok kind t0 s"
  by (simp add: calls_ok_def)

lemma unclaimed_all_Start:
  assumes "race_inv kind t0 s" and "did Won s = []"
  shows "pcs s a = Start \<and> own a s = [] \<and> shared_at 0 t0 (shared s) \<and> history s = []"
proof -
  from assms have h: "history s = []" and sh: "shared_at 0 t0 (shared s)"
    by (simp_all add: race_inv_def global_ok_def)
  from assms(1) have "call_ok (pcs s a) (kind a) (own a s) (task t0 ()) (promise (shared s))"
    by (simp add: race_inv_def calls_ok_def)
  with own_empty_history[OF h, of a] have "pcs s a = Start" by (cases "pcs s a") auto
  with h sh show ?thesis by (simp add: own_def)
qed

lemma claimed_facts:
  assumes "race_inv kind t0 s" and "did Won s = w # ws"
  shows "ws = [] \<and> 1 \<le> phase (pcs s w) \<and> shared_at (phase (pcs s w)) t0 (shared s)
         \<and> did Invoke s = (if 2 \<le> phase (pcs s w) then [w] else [])"
  using assms by (cases ws) (simp_all add: race_inv_def global_ok_def)

lemma not_winner:
  assumes "race_inv kind t0 s" and "did Won s = [w]" and "a \<noteq> w"
  shows "pcs s a = Start \<or> pcs s a = TryRunDone \<or> (\<exists>r. pcs s a = GetDone r)
         \<or> pcs s a = Stopped AssertionFailed"
    and "Won \<notin> set (own a s)"
proof -
  from assms(2,3) show nw: "Won \<notin> set (own a s)" by (simp add: own_did)
  from assms(1) have "call_ok (pcs s a) (kind a) (own a s) (task t0 ()) (promise (shared s))"
    by (simp add: race_inv_def calls_ok_def)
  with nw show "pcs s a = Start \<or> pcs s a = TryRunDone \<or> (\<exists>r. pcs s a = GetDone r)
         \<or> pcs s a = Stopped AssertionFailed"
    by (cases "pcs s a") auto
qed

lemma step_read:
  assumes "pcs s a = TryRunDone" and "kind a = ViaGet" and "future_valid s"
      and "promise (shared s) = Some x"
  shows "step kind a s =
           (goto a (GetDone (future_get (Some x))) [Read] (shared s) s)\<lparr>future_valid := False\<rparr>"
  using assms by (cases x) (simp_all add: step_def future_get_def)

lemma step_blocked:
  assumes "pcs s a = TryRunDone" and "kind a = ViaGet" and "future_valid s"
      and "promise (shared s) = None"
  shows "step kind a s = s"
  using assms by (simp add: step_def future_get_def)

lemma step_invalid_future:
  assumes "pcs s a = TryRunDone" and "kind a = ViaGet" and "\<not> future_valid s"
  shows "step kind a s = goto a (Stopped AssertionFailed) [] (shared s) s"
  using assms by (simp add: step_def)

lemma step_returned:
  assumes "pcs s a = TryRunDone" and "kind a = ViaTryRun"
  shows "step kind a s = s"
  using assms by (simp add: step_def)

lemma step_unclaimed:
  assumes inv: "race_inv kind t0 s" and w: "did Won s = []"
  shows "race_inv kind t0 (step kind a s)"
proof -
  from unclaimed_all_Start[OF inv w, of a]
  have pc: "pcs s a = Start" and o: "own a s = []" and sh: "shared_at 0 t0 (shared s)"
    and h: "history s = []" by simp_all
  let ?t = "(shared s)\<lparr>m_worked_on := True\<rparr>"
  from sh have st: "step kind a s = goto a Claimed [Won] ?t s"
    by (simp add: step_def pc test_and_set_def shared_at_def)
  have g: "global_ok t0 (goto a Claimed [Won] ?t s)"
    using w sh did_empty_history[OF h, of Invoke]
    by (simp add: global_ok_def shared_at_def)
  have c: "calls_ok kind t0 (goto a Claimed [Won] ?t s)"
    using inv o by (intro calls_ok_goto) (simp_all add: race_inv_def)
  from g c show ?thesis by (simp add: st race_inv_def)
qed

lemma shared_at_worked_on:
  "shared_at n t0 t \<Longrightarrow> 1 \<le> n \<Longrightarrow> shared_at n t0 (t\<lparr>m_worked_on := True\<rparr>)"
  by (auto simp: shared_at_def)

lemma step_loser:
  assumes inv: "race_inv kind t0 s" and w: "did Won s = [w]" and ne: "a \<noteq> w"
  shows "race_inv kind t0 (step kind a s)"
proof -
  from claimed_facts[OF inv w]
  have ph: "1 \<le> phase (pcs s w)" and sh: "shared_at (phase (pcs s w)) t0 (shared s)"
    and di: "did Invoke s = (if 2 \<le> phase (pcs s w) then [w] else [])" by simp_all
  from inv have g0: "global_ok t0 s" and c0: "calls_ok kind t0 s" by (simp_all add: race_inv_def)
  from c0 have ca: "call_ok (pcs s a) (kind a) (own a s) (task t0 ()) (promise (shared s))"
    by (simp add: calls_ok_def)
  from not_winner[OF inv w ne]
  have pcs: "pcs s a = Start \<or> pcs s a = TryRunDone \<or> (\<exists>r. pcs s a = GetDone r)
         \<or> pcs s a = Stopped AssertionFailed" and nw: "Won \<notin> set (own a s)" by simp_all
  from ph sh have wo: "m_worked_on (shared s)" by (simp add: shared_at_def)
  from sh have pr: "promise (shared s) = None \<or> promise (shared s) = Some (channel_of (task t0 ()))"
    by (simp add: shared_at_def)
  from pcs show ?thesis
  proof (elim disjE exE)
    assume pc: "pcs s a = Start"
    let ?t = "(shared s)\<lparr>m_worked_on := True\<rparr>"
    from wo have st: "step kind a s = goto a TryRunDone [Lost] ?t s"
      by (simp add: step_def pc test_and_set_def)
    from ca pc have o: "own a s = []" by simp
    have g: "global_ok t0 (goto a TryRunDone [Lost] ?t s)"
      using w ph shared_at_worked_on[OF sh ph] di ne by (simp add: global_ok_def)
    have c: "calls_ok kind t0 (goto a TryRunDone [Lost] ?t s)"
      using c0 o by (intro calls_ok_goto) simp_all
    from g c show ?thesis by (simp add: st race_inv_def)
  next
    assume pc: "pcs s a = TryRunDone"
    from ca pc nw have o: "own a s = [Lost]" by auto
    show ?thesis
    proof (cases "kind a")
      case ViaTryRun
      from step_returned[where kind=kind and a=a, OF pc ViaTryRun] inv show ?thesis by simp
    next
      case ViaGet
      show ?thesis
      proof (cases "future_valid s")
        case False
        have st: "step kind a s = goto a (Stopped AssertionFailed) [] (shared s) s"
          by (rule step_invalid_future[where kind=kind and a=a, OF pc ViaGet False])
        have g: "global_ok t0 (goto a (Stopped AssertionFailed) [] (shared s) s)"
          using w ph sh di ne by (simp add: global_ok_def)
        have c: "calls_ok kind t0 (goto a (Stopped AssertionFailed) [] (shared s) s)"
          using c0 o ViaGet by (intro calls_ok_goto) simp_all
        from g c show ?thesis by (simp add: st race_inv_def)
      next
        case True
        show ?thesis
        proof (cases "promise (shared s) = None")
          case N: True
          from step_blocked[where kind=kind and a=a, OF pc ViaGet True N] inv show ?thesis by simp
        next
          case S: False
          with pr have p: "promise (shared s) = Some (channel_of (task t0 ()))" by simp
          let ?r = "future_get (Some (channel_of (task t0 ())))"
          have st: "step kind a s = (goto a (GetDone ?r) [Read] (shared s) s)\<lparr>future_valid := False\<rparr>"
            by (rule step_read[where kind=kind and a=a, OF pc ViaGet True p])
          have g: "global_ok t0 ((goto a (GetDone ?r) [Read] (shared s) s)\<lparr>future_valid := False\<rparr>)"
            using w ph sh di ne by (simp add: global_ok_def)
          have c: "calls_ok kind t0 (goto a (GetDone ?r) [Read] (shared s) s)"
            using c0 o ViaGet p by (intro calls_ok_goto) simp_all
          from g c show ?thesis by (simp add: st race_inv_def)
        qed
      qed
    qed
  next
    fix r assume pc: "pcs s a = GetDone r"
    then have "step kind a s = s" by (simp add: step_def)
    with inv show ?thesis by simp
  next
    assume pc: "pcs s a = Stopped AssertionFailed"
    then have "step kind a s = s" by (simp add: step_def)
    with inv show ?thesis by simp
  qed
qed

lemma step_winner:
  assumes inv: "race_inv kind t0 s" and w: "did Won s = [w]"
  shows "race_inv kind t0 (step kind w s)"
proof -
  from claimed_facts[OF inv w]
  have ph: "1 \<le> phase (pcs s w)" and sh: "shared_at (phase (pcs s w)) t0 (shared s)"
    and di: "did Invoke s = (if 2 \<le> phase (pcs s w) then [w] else [])" by simp_all
  from inv have c0: "calls_ok kind t0 s" by (simp add: race_inv_def)
  from c0 have ca: "call_ok (pcs s w) (kind w) (own w s) (task t0 ()) (promise (shared s))"
    by (simp add: calls_ok_def)
  have wn: "Won \<in> set (own w s)" using w by (simp add: own_did)
  show ?thesis
  proof (cases "pcs s w")
    case Start
    with ph show ?thesis by simp
  next
    case Claimed
    let ?t = "(shared s)\<lparr>invocations := Suc (invocations (shared s))\<rparr>"
    from sh Claimed have st: "step kind w s = goto w (Invoked (task t0 ())) [Invoke] ?t s"
      by (simp add: step_def invoke_def shared_at_def)
    have g: "global_ok t0 (goto w (Invoked (task t0 ())) [Invoke] ?t s)"
      using w sh di Claimed by (simp add: global_ok_def shared_at_def)
    have c: "calls_ok kind t0 (goto w (Invoked (task t0 ())) [Invoke] ?t s)"
      using c0 ca Claimed by (intro calls_ok_goto) simp_all
    from g c show ?thesis by (simp add: st race_inv_def)
  next
    case (Invoked res)
    from ca Invoked have res: "res = task t0 ()" and o: "own w s = [Won, Invoke]" by simp_all
    let ?t = "(shared s)\<lparr>promise := Some (channel_of (task t0 ()))\<rparr>"
    from sh Invoked have "promise (shared s) = None" by (simp add: shared_at_def)
    from deliver_fresh[OF this, of res] Invoked res
    have st: "step kind w s = goto w Delivered [Deliver] ?t s"
      by (simp add: step_def)
    have g: "global_ok t0 (goto w Delivered [Deliver] ?t s)"
      using w sh di Invoked by (simp add: global_ok_def shared_at_def)
    have c: "calls_ok kind t0 (goto w Delivered [Deliver] ?t s)"
      using c0 o by (intro calls_ok_goto) simp_all
    from g c show ?thesis by (simp add: st race_inv_def)
  next
    case Delivered
    from ca Delivered have o: "own w s = [Won, Invoke, Deliver]" by simp
    let ?t = "(shared s)\<lparr>m_future := Some (Inr ())\<rparr>"
    from sh Delivered have "m_future (shared s) = None" by (simp add: shared_at_def)
    from signal_fresh[OF this] Delivered
    have st: "step kind w s = goto w Signalled [Signal] ?t s"
      by (simp add: step_def)
    have g: "global_ok t0 (goto w Signalled [Signal] ?t s)"
      using w sh di Delivered by (simp add: global_ok_def shared_at_def)
    have c: "calls_ok kind t0 (goto w Signalled [Signal] ?t s)"
      using c0 o by (intro calls_ok_goto) simp_all
    from g c show ?thesis by (simp add: st race_inv_def)
  next
    case Signalled
    from ca Signalled have o: "own w s = [Won, Invoke, Deliver, Signal]" by simp
    let ?t = "(shared s)\<lparr>m_ready := True\<rparr>"
    from Signalled have st: "step kind w s = goto w TryRunDone [Ready] ?t s"
      by (simp add: step_def)
    have g: "global_ok t0 (goto w TryRunDone [Ready] ?t s)"
      using w sh di Signalled by (simp add: global_ok_def shared_at_def)
    have c: "calls_ok kind t0 (goto w TryRunDone [Ready] ?t s)"
      using c0 o by (intro calls_ok_goto) simp_all
    from g c show ?thesis by (simp add: st race_inv_def)
  next
    case TryRunDone
    from ca TryRunDone wn have o: "own w s = [Won, Invoke, Deliver, Signal, Ready]" by auto
    from sh TryRunDone have p: "promise (shared s) = Some (channel_of (task t0 ()))"
      by (simp add: shared_at_def)
    show ?thesis
    proof (cases "kind w")
      case ViaTryRun
      from step_returned[where kind=kind and a=w, OF TryRunDone ViaTryRun] inv show ?thesis by simp
    next
      case ViaGet
      show ?thesis
      proof (cases "future_valid s")
        case False
        have st: "step kind w s = goto w (Stopped AssertionFailed) [] (shared s) s"
          by (rule step_invalid_future[where kind=kind and a=w, OF TryRunDone ViaGet False])
        have g: "global_ok t0 (goto w (Stopped AssertionFailed) [] (shared s) s)"
          using w sh di TryRunDone by (simp add: global_ok_def)
        have c: "calls_ok kind t0 (goto w (Stopped AssertionFailed) [] (shared s) s)"
          using c0 o ViaGet by (intro calls_ok_goto) simp_all
        from g c show ?thesis by (simp add: st race_inv_def)
      next
        case True
        let ?r = "future_get (Some (channel_of (task t0 ())))"
        have st: "step kind w s = (goto w (GetDone ?r) [Read] (shared s) s)\<lparr>future_valid := False\<rparr>"
          by (rule step_read[where kind=kind and a=w, OF TryRunDone ViaGet True p])
        have g: "global_ok t0 ((goto w (GetDone ?r) [Read] (shared s) s)\<lparr>future_valid := False\<rparr>)"
          using w sh di TryRunDone by (simp add: global_ok_def)
        have c: "calls_ok kind t0 (goto w (GetDone ?r) [Read] (shared s) s)"
          using c0 o ViaGet p by (intro calls_ok_goto) simp_all
        from g c show ?thesis by (simp add: st race_inv_def)
      qed
    qed
  next
    case (GetDone r)
    then have "step kind w s = s" by (simp add: step_def)
    with inv show ?thesis by simp
  next
    case (Stopped c)
    then have "step kind w s = s" by (simp add: step_def)
    with inv show ?thesis by simp
  qed
qed

lemma step_inv:
  assumes "race_inv kind t0 s"
  shows "race_inv kind t0 (step kind a s)"
proof (cases "did Won s")
  case Nil
  from step_unclaimed[OF assms Nil] show ?thesis .
next
  case (Cons w ws)
  from claimed_facts[OF assms Cons] have "ws = []" by simp
  with Cons have w: "did Won s = [w]" by simp
  show ?thesis
  proof (cases "a = w")
    case True
    with step_winner[OF assms w] show ?thesis by simp
  next
    case False
    from step_loser[OF assms w False] show ?thesis .
  qed
qed

lemma run_schedule_inv:
  assumes "race_inv kind t0 s"
  shows "race_inv kind t0 (run_schedule kind sched s)"
  using assms unfolding run_schedule_def
  by (induction sched arbitrary: s) (simp_all add: step_inv)

lemma reachable_inv:
  "race_inv kind (Task_ctor func args) (run_schedule kind sched (race_init (Task_ctor func args)))"
proof (rule run_schedule_inv[OF race_inv_init])
  show "task_ok (Task_ctor func args)" by (rule task_ok_ctor)
  show "\<not> m_worked_on (Task_ctor func args)" by (simp add: Task_ctor_def)
qed

subsection \<open>What the invariant says about a reachable state\<close>

lemma own_shape:
  assumes "race_inv kind t0 s"
  shows "own a s \<in> {[], [Won], [Won, Invoke], [Won, Invoke, Deliver],
                    [Won, Invoke, Deliver, Signal], [Won, Invoke, Deliver, Signal, Ready],
                    [Won, Invoke, Deliver, Signal, Ready, Read], [Lost], [Lost, Read]}"
proof -
  from assms have "call_ok (pcs s a) (kind a) (own a s) (task t0 ()) (promise (shared s))"
    by (simp add: race_inv_def calls_ok_def)
  then show ?thesis by (cases "pcs s a") auto
qed

lemma loser_shape:
  assumes "race_inv kind t0 s" and "a \<in> set (did Lost s)"
  shows "a \<notin> set (did Invoke s) \<and> a \<notin> set (did Won s) \<and> (own a s = [Lost] \<or> own a s = [Lost, Read])"
proof -
  from assms(2) have l: "Lost \<in> set (own a s)" by (simp add: own_did)
  from own_shape[OF assms(1), of a] l have o: "own a s = [Lost] \<or> own a s = [Lost, Read]"
    by auto
  then have "Invoke \<notin> set (own a s)" and "Won \<notin> set (own a s)" by auto
  with o show ?thesis by (simp add: own_did)
qed

lemma no_terminate:
  assumes "race_inv kind t0 s"
  shows "pcs s a \<noteq> Stopped Terminate"
proof
  assume "pcs s a = Stopped Terminate"
  moreover from assms have "call_ok (pcs s a) (kind a) (own a s) (task t0 ()) (promise (shared s))"
    by (simp add: race_inv_def calls_ok_def)
  ultimately show False by simp
qed

lemma counts:
  assumes "race_inv kind t0 s"
  shows "invocations (shared s) = invocations t0 + length (did Invoke s)
       \<and> length (did Invoke s) \<le> 1 \<and> length (did Won s) \<le> 1
       \<and> (history s \<noteq> [] \<longrightarrow> length (did Won s) = 1)
       \<and> set (did Invoke s) \<subseteq> set (did Won s)"
proof (cases "did Won s")
  case Nil
  with assms have "shared_at 0 t0 (shared s)" and h: "history s = []"
    by (simp_all add: race_inv_def global_ok_def)
  with Nil did_empty_history[OF h, of Invoke] show ?thesis by (simp add: shared_at_def)
next
  case (Cons w ws)
  from claimed_facts[OF assms Cons] Cons show ?thesis
    by (auto simp: shared_at_def)
qed

lemma got_result:
  assumes inv: "race_inv kind t0 s" and pc: "pcs s a = GetDone r"
  shows "kind a = ViaGet
       \<and> (own a s = [Won, Invoke, Deliver, Signal, Ready, Read] \<or> own a s = [Lost, Read])
       \<and> invocations (shared s) = Suc (invocations t0)
       \<and> promise (shared s) = Some (channel_of (task t0 ()))
       \<and> r = future_get (Some (channel_of (task t0 ())))
       \<and> (a \<in> set (did Won s) \<longrightarrow> did Invoke s = [a] \<and> m_ready (shared s) \<and> m_future (shared s) = Some (Inr ()))"
proof -
  from inv have "call_ok (pcs s a) (kind a) (own a s) (task t0 ()) (promise (shared s))"
    by (simp add: race_inv_def calls_ok_def)
  with pc have k: "kind a = ViaGet"
    and o: "own a s = [Won, Invoke, Deliver, Signal, Ready, Read] \<or> own a s = [Lost, Read]"
    and r: "r = future_get (Some (channel_of (task t0 ())))"
    and p: "promise (shared s) = Some (channel_of (task t0 ()))" by simp_all
  from o have "history s \<noteq> []" by (auto simp: own_def)
  with counts[OF inv] obtain w where w: "did Won s = [w]"
    by (cases "did Won s") (auto simp: length_Suc_conv)
  from claimed_facts[OF inv, of w "[]"] w
  have sh: "shared_at (phase (pcs s w)) t0 (shared s)"
    and di: "did Invoke s = (if 2 \<le> phase (pcs s w) then [w] else [])" by simp_all
  from sh p have ge: "3 \<le> phase (pcs s w)" by (auto simp: shared_at_def split: if_splits)
  with sh have i: "invocations (shared s) = Suc (invocations t0)" by (simp add: shared_at_def)
  have "a \<in> set (did Won s) \<longrightarrow> did Invoke s = [a] \<and> m_ready (shared s) \<and> m_future (shared s) = Some (Inr ())"
  proof
    assume "a \<in> set (did Won s)"
    with w have "a = w" by simp
    with pc sh di show "did Invoke s = [a] \<and> m_ready (shared s) \<and> m_future (shared s) = Some (Inr ())"
      by (simp add: shared_at_def)
  qed
  with k o r p i show ?thesis by simp
qed

lemma after_events:
  assumes inv: "race_inv kind t0 s"
  shows "(did Deliver s \<noteq> [] \<longrightarrow> promise (shared s) = Some (channel_of (task t0 ())))
       \<and> (did Signal s \<noteq> [] \<longrightarrow> m_future (shared s) = Some (Inr ()))
       \<and> (did Ready s \<noteq> [] \<longrightarrow> m_ready (shared s))"
proof -
  { fix e assume ne: "did e s \<noteq> []" and e: "e = Deliver \<or> e = Signal \<or> e = Ready"
    then obtain a where a: "a \<in> set (did e s)" by (cases "did e s") auto
    then have ea: "e \<in> set (own a s)" by (simp add: own_did)
    from own_shape[OF inv, of a] ea e have wa: "Won \<in> set (own a s)" by auto
    then have "a \<in> set (did Won s)" by (simp add: own_did)
    with counts[OF inv] have w: "did Won s = [a]"
      by (cases "did Won s") auto
    from claimed_facts[OF inv, of a "[]"] w
    have sh: "shared_at (phase (pcs s a)) t0 (shared s)" by simp
    from inv have c: "call_ok (pcs s a) (kind a) (own a s) (task t0 ()) (promise (shared s))"
      by (simp add: race_inv_def calls_ok_def)
    have "(e = Deliver \<longrightarrow> 3 \<le> phase (pcs s a)) \<and> (e = Signal \<longrightarrow> 4 \<le> phase (pcs s a))
          \<and> (e = Ready \<longrightarrow> 5 \<le> phase (pcs s a))"
      using c ea by (cases "pcs s a") auto
    with sh have "(e = Deliver \<longrightarrow> promise (shared s) = Some (channel_of (task t0 ())))
       \<and> (e = Signal \<longrightarrow> m_future (shared s) = Some (Inr ()))
       \<and> (e = Ready \<longrightarrow> m_ready (shared s))"
      by (simp add: shared_at_def)
  }
  then show ?thesis by blast
qed

lemma Future_get_unclaimed:
  assumes "task_ok t" and "\<not> m_worked_on t"
  shows "\<exists>t'. Future_get True t = (future_get (Some (channel_of (task t ()))), False, t')
            \<and> complete t t'"
proof -
  from try_run_ok[OF assms(1)] assms(2) obtain t' where r: "try_run t = Normal t'"
    and c: "complete t t'" by blast
  from c have pr: "promise t' = Some (channel_of (task t ()))" by (simp add: complete_def)
  have "Future_get True t = (future_get (Some (channel_of (task t ()))), False, t')"
    using r pr by (cases "channel_of (task t ())") (simp_all add: Future_get_def future_get_def)
  with c show ?thesis by blast
qed

lemma Future_get_complete:
  assumes "complete t0 t"
  shows "Future_get True t = (future_get (Some (channel_of (task t0 ()))), False, t)"
proof -
  from assms have w: "m_worked_on t" and pr: "promise t = Some (channel_of (task t0 ()))"
    by (simp_all add: complete_def)
  from try_run_claimed[OF w] pr show ?thesis
    by (cases "channel_of (task t0 ())") (simp_all add: Future_get_def future_get_def)
qed

subsection \<open>Concrete runs\<close>

lemmas race_eval = run_schedule_def race_init_def step_def goto_def test_and_set_def invoke_def
  deliver_def signal_def set_value_def set_exception_def future_get_def Task_ctor_def
  one_getter_def worker_first_def did_def own_def

lemma worker_first_run:
  "run_schedule one_getter worker_first (race_init (Task_ctor free_function (5, 3))) =
     \<lparr>shared = \<lparr>m_worked_on = True, m_ready = True, m_future = Some (Inr ()), m_task_valid = True,
                task = (\<lambda>u. free_function (5, 3)), promise = Some (Inr 13), invocations = 1\<rparr>,
      future_valid = False,
      pcs = (\<lambda>a. Start)(0 := GetDone (Returned 13), Suc 0 := TryRunDone),
      history = [(1, Won), (0, Lost), (1, Invoke), (1, Deliver), (0, Read), (1, Signal), (1, Ready)]\<rparr>"
  by (simp add: race_eval free_function_def)

lemma worker_first_did:
  "did Won (run_schedule one_getter worker_first (race_init (Task_ctor free_function (5, 3)))) = [1]"
  "did Lost (run_schedule one_getter worker_first (race_init (Task_ctor free_function (5, 3)))) = [0]"
  "did Invoke (run_schedule one_getter worker_first (race_init (Task_ctor free_function (5, 3)))) = [1]"
  "own 0 (run_schedule one_getter worker_first (race_init (Task_ctor free_function (5, 3)))) = [Lost, Read]"
  "own 1 (run_schedule one_getter worker_first (race_init (Task_ctor free_function (5, 3))))
     = [Won, Invoke, Deliver, Signal, Ready]"
  by (simp_all add: worker_first_run did_def own_def)

lemma worker_first_throwing_run:
  "run_schedule one_getter worker_first (race_init (Task_ctor throwing_function 7)) =
     \<lparr>shared = \<lparr>m_worked_on = True, m_ready = True, m_future = Some (Inr ()), m_task_valid = True,
                task = (\<lambda>u. throwing_function 7), promise = Some (Inl (Thrown ''boom'')),
                invocations = 1\<rparr>,
      future_valid = False,
      pcs = (\<lambda>a. Start)(0 := GetDone (Rethrown (Thrown ''boom'')), Suc 0 := TryRunDone),
      history = [(1, Won), (0, Lost), (1, Invoke), (1, Deliver), (0, Read), (1, Signal), (1, Ready)]\<rparr>"
  by (simp add: race_eval throwing_function_def)



lemma workerless_program_runs:
  "\<exists>p fs. exec_all workerless_program (ThreadPool_ctor 0, []) = Normal (p, fs)
         \<and> run_log p = [(Getter, 0)] \<and> m_tasks p = [0]
         \<and> map_option promise (task_objects p 0) = Some (Some (Inr 13))"
  by (simp add: workerless_program_def async_def ThreadPool_ctor_def Let_def wait_def get_def
        run_task_def try_run_def test_and_set_def m_task_call_def invoke_def deliver_def
        signal_def set_value_def future_get_def Task_ctor_def free_function_def)

subsection \<open>At most one invocation\<close>

text \<open>
  Claim C1. Take any Task built by the constructor and any number of calls of
  \<open>try_run()\<close> on it, made directly or through \<open>Future::get()\<close>, interleaved in any
  order at the level of single statements (\<open>test_and_set\<close> is atomic). In every state
  that can be reached, the callable has been invoked as often as there are \<open>Invoke\<close>
  steps, which is at most once; at most one call has found the flag clear (\<open>Won\<close>), and
  exactly one as soon as any call has taken a step; only that call invokes the callable;
  every call that found the flag set (\<open>Lost\<close>) has gone straight to the end of
  \<open>try_run()\<close> (its only possible further step is the read of a \<open>get()\<close>); and no call ends
  the process through an escaping exception. Run by one thread, the first \<open>try_run()\<close>
  invokes the callable once and a second \<open>try_run()\<close> changes nothing.
\<close>

theorem try_run_invokes_callable_at_most_once:
  "(let s = run_schedule kind sched (race_init (Task_ctor func args)) in
      invocations (shared s) = length (did Invoke s) \<and> length (did Invoke s) \<le> 1
    \<and> length (did Won s) \<le> 1 \<and> (history s \<noteq> [] \<longrightarrow> length (did Won s) = 1)
    \<and> set (did Invoke s) \<subseteq> set (did Won s)
    \<and> (\<forall>a \<in> set (did Lost s). a \<notin> set (did Invoke s) \<and> a \<notin> set (did Won s)
           \<and> (own a s = [Lost] \<or> own a s = [Lost, Read]))
    \<and> (\<forall>a. pcs s a \<noteq> Stopped Terminate))
   \<and> (\<exists>t1. try_run (Task_ctor func args) = Normal t1 \<and> invocations t1 = 1
           \<and> try_run t1 = Normal t1)"
proof
  let ?s = "run_schedule kind sched (race_init (Task_ctor func args))"
  have inv: "race_inv kind (Task_ctor func args) ?s" by (rule reachable_inv)
  have z: "invocations (Task_ctor func args) = 0" by (simp add: Task_ctor_def)
  from counts[OF inv] z loser_shape[OF inv] no_terminate[OF inv]
  show "let s = ?s in
      invocations (shared s) = length (did Invoke s) \<and> length (did Invoke s) \<le> 1
    \<and> length (did Won s) \<le> 1 \<and> (history s \<noteq> [] \<longrightarrow> length (did Won s) = 1)
    \<and> set (did Invoke s) \<subseteq> set (did Won s)
    \<and> (\<forall>a \<in> set (did Lost s). a \<notin> set (did Invoke s) \<and> a \<notin> set (did Won s)
           \<and> (own a s = [Lost] \<or> own a s = [Lost, Read]))
    \<and> (\<forall>a. pcs s a \<noteq> Stopped Terminate)"
    unfolding Let_def by simp
next
  have nc: "\<not> m_worked_on (Task_ctor func args)" by (simp add: Task_ctor_def)
  from try_run_ok[OF task_ok_ctor, of func args] nc
  obtain t1 where r: "try_run (Task_ctor func args) = Normal t1"
    and c: "complete (Task_ctor func args) t1" by blast
  from c have "invocations t1 = 1" and "m_worked_on t1" by (simp_all add: complete_def Task_ctor_def)
  with r try_run_claimed[of t1]
  show "\<exists>t1. try_run (Task_ctor func args) = Normal t1 \<and> invocations t1 = 1
           \<and> try_run t1 = Normal t1" by auto
qed

theorem try_run_invokes_callable_at_most_once_witness:
  "invocations (shared (run_schedule one_getter worker_first
      (race_init (Task_ctor free_function (5, 3))))) = 1
   \<and> did Won (run_schedule one_getter worker_first (race_init (Task_ctor free_function (5, 3)))) = [1]
   \<and> did Lost (run_schedule one_getter worker_first (race_init (Task_ctor free_function (5, 3)))) = [0]
   \<and> 0 \<notin> set (did Invoke (run_schedule one_getter worker_first
      (race_init (Task_ctor free_function (5, 3)))))"
  using try_run_invokes_callable_at_most_once[of one_getter worker_first free_function "(5, 3)"]
  by (simp add: Let_def worker_first_did)

subsection \<open>get() runs the task before it reads\<close>



subsection \<open>Exceptions of the callable\<close>

text \<open>
  Claim C3. If the callable throws \<open>e\<close>: \<open>try_run()\<close> returns normally with \<open>e\<close> stored in
  the result channel, the completion signal set and the ready flag set; a later \<open>get()\<close>
  rethrows \<open>e\<close>, and so does a \<open>get()\<close> that runs the body itself. In every reachable
  state of the race no call ends the process through an escaping exception, every
  \<open>get()\<close> that is done has rethrown \<open>e\<close>, the result channel holds \<open>e\<close> once it has been
  written, and the completion signal is set once \<open>task_barrier.set_value()\<close> has run.
\<close>

theorem thrown_exception_reaches_get:
  assumes "func args = Inl e"
  shows "(\<exists>t1. try_run (Task_ctor func args) = Normal t1
            \<and> promise t1 = Some (Inl (Thrown e)) \<and> m_future t1 = Some (Inr ()) \<and> m_ready t1
            \<and> invocations t1 = 1
            \<and> Future_get True t1 = (Rethrown (Thrown e), False, t1))
       \<and> fst (Future_get True (Task_ctor func args)) = Rethrown (Thrown e)
       \<and> (\<forall>kind sched.
             let s = run_schedule kind sched (race_init (Task_ctor func args)) in
               (\<forall>a. pcs s a \<noteq> Stopped Terminate)
             \<and> (\<forall>a r. pcs s a = GetDone r \<longrightarrow> r = Rethrown (Thrown e))
             \<and> (did Deliver s \<noteq> [] \<longrightarrow> promise (shared s) = Some (Inl (Thrown e)))
             \<and> (did Signal s \<noteq> [] \<longrightarrow> m_future (shared s) = Some (Inr ())))"
proof (intro conjI allI)
  have ch: "channel_of (task (Task_ctor func args) ()) = Inl (Thrown e)"
    using assms by (simp add: channel_of_def Task_ctor_def)
  have nc: "\<not> m_worked_on (Task_ctor func args)" by (simp add: Task_ctor_def)
  from try_run_ok[OF task_ok_ctor, of func args] nc
  obtain t1 where r: "try_run (Task_ctor func args) = Normal t1"
    and c: "complete (Task_ctor func args) t1" by blast
  from Future_get_complete[OF c] ch
  have g: "Future_get True t1 = (Rethrown (Thrown e), False, t1)" by (simp add: future_get_def)
  from r c g ch
  show "\<exists>t1. try_run (Task_ctor func args) = Normal t1
            \<and> promise t1 = Some (Inl (Thrown e)) \<and> m_future t1 = Some (Inr ()) \<and> m_ready t1
            \<and> invocations t1 = 1
            \<and> Future_get True t1 = (Rethrown (Thrown e), False, t1)"
    by (simp add: complete_def Task_ctor_def)
  from Future_get_unclaimed[OF task_ok_ctor nc] ch
  show "fst (Future_get True (Task_ctor func args)) = Rethrown (Thrown e)"
    by (auto simp: future_get_def)
  fix kind sched
  let ?s = "run_schedule kind sched (race_init (Task_ctor func args))"
  have inv: "race_inv kind (Task_ctor func args) ?s" by (rule reachable_inv)
  have "\<And>a r. pcs ?s a = GetDone r \<Longrightarrow> r = Rethrown (Thrown e)"
    using got_result[OF inv] ch by (simp add: future_get_def)
  with no_terminate[OF inv] after_events[OF inv] ch
  show "let s = ?s in
               (\<forall>a. pcs s a \<noteq> Stopped Terminate)
             \<and> (\<forall>a r. pcs s a = GetDone r \<longrightarrow> r = Rethrown (Thrown e))
             \<and> (did Deliver s \<noteq> [] \<longrightarrow> promise (shared s) = Some (Inl (Thrown e)))
             \<and> (did Signal s \<noteq> [] \<longrightarrow> m_future (shared s) = Some (Inr ()))"
    unfolding Let_def by simp
qed

theorem thrown_exception_reaches_get_witness:
  "throwing_function 7 = Inl ''boom''
   \<and> fst (Future_get True (Task_ctor throwing_function 7)) = Rethrown (Thrown ''boom'')
   \<and> pcs (run_schedule one_getter worker_first (race_init (Task_ctor throwing_function 7))) 0
       = GetDone (Rethrown (Thrown ''boom''))
   \<and> promise (shared (run_schedule one_getter worker_first
        (race_init (Task_ctor throwing_function 7)))) = Some (Inl (Thrown ''boom''))"
proof -
  have t: "throwing_function 7 = Inl ''boom''" by (simp add: throwing_function_def)
  from thrown_exception_reaches_get[of throwing_function 7 "''boom''", OF t]
  have a: "fst (Future_get True (Task_ctor throwing_function 7)) = Rethrown (Thrown ''boom'')"
    and b: "\<forall>kind sched.
             let s = run_schedule kind sched (race_init (Task_ctor throwing_function 7)) in
               (\<forall>a. pcs s a \<noteq> Stopped Terminate)
             \<and> (\<forall>a r. pcs s a = GetDone r \<longrightarrow> r = Rethrown (Thrown ''boom''))
             \<and> (did Deliver s \<noteq> [] \<longrightarrow> promise (shared s) = Some (Inl (Thrown ''boom'')))
             \<and> (did Signal s \<noteq> [] \<longrightarrow> m_future (shared s) = Some (Inr ()))"
    by blast+
  from b have "did Deliver (run_schedule one_getter worker_first
                  (race_init (Task_ctor throwing_function 7))) \<noteq> [] \<longrightarrow>
               promise (shared (run_schedule one_getter worker_first
                  (race_init (Task_ctor throwing_function 7)))) = Some (Inl (Thrown ''boom''))"
    unfolding Let_def by blast
  with a t show ?thesis by (simp add: worker_first_throwing_run did_def)
qed

subsection \<open>ThreadPool::wait\<close>



subsection \<open>A pool without workers\<close>

text \<open>
  Claim C10. \<open>ThreadPool(0)\<close> is built like any other pool and has no worker threads.
  Whatever the program then does with it (submitting, \<open>get\<close>, \<open>wait\<close> in either mode;
  rounds of worker threads do not exist), every call of \<open>try_run()\<close> was made from
  \<open>Future::get\<close> or from \<open>ThreadPool::wait\<close>, and every claimed Task was claimed by such a
  call. A task submitted at any such point is unclaimed after \<open>async\<close> and stays so across
  \<open>wait(Wait::Sync)\<close>, which returns at once; \<open>get()\<close> on its future runs it and returns
  the callable's outcome; \<open>wait(Wait::Async)\<close> runs it to completion and returns.
\<close>

theorem workerless_pool_runs_tasks_on_callers:
  "m_workers (ThreadPool_ctor 0) = []
   \<and> (\<forall>(acts :: ('a, 'e, 'r) action list) p fs.
         exec_all acts (ThreadPool_ctor 0, []) = Normal (p, fs) \<longrightarrow>
         m_workers p = [] \<and> run_by_callers_only p
         \<and> (\<forall>(func :: 'b \<Rightarrow> 'e + 'r) args. case async func args p of
               (f, p1) \<Rightarrow>
                 \<not> claimed_in p1 (Future_m_task f)
                 \<and> wait Sync p1 = Returns p1
                 \<and> fst (get f p1) = future_get (Some (channel_of (func args)))
                 \<and> run_log (snd (snd (get f p1))) = run_log p @ [(Getter, Future_m_task f)]
                 \<and> (\<exists>p2 t'. wait Async p1 = Returns p2
                        \<and> run_log p2 = run_log p @ map (Pair Waiter) (m_tasks p1)
                        \<and> task_objects p2 (Future_m_task f) = Some t'
                        \<and> complete (Task_ctor func args) t')))"
proof (intro conjI allI impI)
  show "m_workers (ThreadPool_ctor 0) = []" by (simp add: ThreadPool_ctor_def)
next
  fix acts :: "('a, 'e, 'r) action list" and p :: "('e, 'r) ThreadPool" and fs
  assume e: "exec_all acts (ThreadPool_ctor 0, []) = Normal (p, fs)"
  from workerless_exec_all[OF workerless_ctor e] have w: "workerless p" .
  from w show "m_workers p = []" by (simp add: workerless_def)
  from w show "run_by_callers_only p" by (simp add: workerless_def)
  fix func :: "'b \<Rightarrow> 'e + 'r" and args
  show "case async func args p of
               (f, p1) \<Rightarrow>
                 \<not> claimed_in p1 (Future_m_task f)
                 \<and> wait Sync p1 = Returns p1
                 \<and> fst (get f p1) = future_get (Some (channel_of (func args)))
                 \<and> run_log (snd (snd (get f p1))) = run_log p @ [(Getter, Future_m_task f)]
                 \<and> (\<exists>p2 t'. wait Async p1 = Returns p2
                        \<and> run_log p2 = run_log p @ map (Pair Waiter) (m_tasks p1)
                        \<and> task_objects p2 (Future_m_task f) = Some t'
                        \<and> complete (Task_ctor func args) t')"
    by (rule workerless_submit[OF w])
qed

theorem workerless_pool_runs_tasks_on_callers_witness:
  "\<exists>p fs. exec_all workerless_program (ThreadPool_ctor 0, []) = Normal (p, fs)
         \<and> run_log p = [(Getter, 0)] \<and> m_workers p = [] \<and> run_by_callers_only p
         \<and> fst (get (fst (async free_function (1, 1) p)) (snd (async free_function (1, 1) p)))
             = Returned 3"
proof -
  from workerless_program_runs obtain p fs
    where e: "exec_all workerless_program (ThreadPool_ctor 0, []) = Normal (p, fs)"
      and l: "run_log p = [(Getter, 0)]" by blast
  note th = workerless_pool_runs_tasks_on_callers[THEN conjunct2, rule_format, OF e]
  from th have a: "m_workers p = []" and b: "run_by_callers_only p" by blast+
  note c = th[THEN conjunct2, THEN conjunct2, rule_format, of free_function "(1, 1)"]
  from c have "fst (get (fst (async free_function (1, 1) p)) (snd (async free_function (1, 1) p)))
             = Returned 3"
    by (simp add: case_prod_beta channel_of_def free_function_def future_get_def)
  with e l a b show ?thesis by blast
qed

section \<open>Further observations\<close>

text \<open>
  The race agrees with \<open>try_run\<close> run by one thread: the five steps of a lone call on an
  unclaimed Task leave the Task as \<open>try_run\<close> does, and the single step of a later call
  leaves it as a second \<open>try_run\<close> does.
\<close>

lemma lone_call_is_try_run:
  assumes "task_ok t" and "\<not> m_worked_on t"
  shows "try_run t = Normal (shared (run_schedule kind [a, a, a, a, a] (race_init t)))
       \<and> pcs (run_schedule kind [a, a, a, a, a] (race_init t)) a = TryRunDone"
  using assms
  by (simp add: try_run_unclaimed run_schedule_def race_init_def step_def goto_def
        test_and_set_def invoke_def deliver_fresh signal_fresh task_ok_def)

lemma second_call_is_try_run:
  assumes "task_ok t" and "\<not> m_worked_on t" and "b \<noteq> a"
  shows "try_run (shared (run_schedule kind [a, a, a, a, a] (race_init t)))
           = Normal (shared (run_schedule kind [a, a, a, a, a, b] (race_init t)))
       \<and> pcs (run_schedule kind [a, a, a, a, a, b] (race_init t)) b = TryRunDone"
  using assms
  by (simp add: try_run_claimed run_schedule_def race_init_def step_def goto_def
        test_and_set_def invoke_def deliver_fresh signal_fresh task_ok_def)

text \<open>
  In a pool with a worker, a round of the worker takes the queued task and runs it.
\<close>

theorem worker_runs_queued_task:
  "(case exec_all one_worker_program (ThreadPool_ctor 1, []) of
      Normal (p, fs) \<Rightarrow> run_log p = [(Worker 0, 0)] \<and> m_tasks p = [] \<and> m_ongoing p = 0
        \<and> map_option promise (task_objects p 0) = Some (Some (Inr 13))
    | Crashed c \<Rightarrow> False)"
  by (simp add: one_worker_program_def async_def ThreadPool_ctor_def Let_def do_work_def
        run_task_def try_run_def test_and_set_def m_task_call_def invoke_def deliver_def
        signal_def set_value_def Task_ctor_def free_function_def)

text \<open>
  The result channel is written before the completion signal. When a worker runs the
  task and a \<open>get()\<close> races with it, the \<open>get()\<close> can return as soon as the worker has
  delivered the result, while the Task's completion signal and ready flag are still
  unset: the worker is at \<open>task_barrier.set_value()\<close>.
\<close>

theorem get_can_return_before_completion_signal:
  "pcs (run_schedule one_getter worker_first_until_read
          (race_init (Task_ctor free_function (5, 3)))) 0 = GetDone (Returned 13)
   \<and> pcs (run_schedule one_getter worker_first_until_read
          (race_init (Task_ctor free_function (5, 3)))) 1 = Delivered
   \<and> promise (shared (run_schedule one_getter worker_first_until_read
          (race_init (Task_ctor free_function (5, 3))))) = Some (Inr 13)
   \<and> m_future (shared (run_schedule one_getter worker_first_until_read
          (race_init (Task_ctor free_function (5, 3))))) = None
   \<and> \<not> m_ready (shared (run_schedule one_getter worker_first_until_read
          (race_init (Task_ctor free_function (5, 3)))))"
  by (simp add: race_eval worker_first_until_read_def free_function_def)

text \<open>
  Move assignment relocates an inline value to \<open>m_storage.pointer()\<close> of the
  destination. When the destination's storage is in the heap state (here: it held an
  \<open>S2<8>\<close> in an \<open>ErasuredType<4>\<close>), that is the old heap buffer: the \<open>uint32_t\<close> ends up
  in the 8-byte heap buffer, and the destination's storage stays in the heap state.
\<close>

theorem inline_value_relocated_into_old_heap_buffer:
  "map_sum id trace (ErasuredType_move_assign 1 2 heap_and_inline) =
     Inr [Alloc 8 1 (HeapAddr 4096), Construct S2_8 (HeapAddr 4096),
          Construct uint32_t (InlineAddr 2),
          Destroy S2_8 (HeapAddr 4096), Relocate uint32_t (HeapAddr 4096) (InlineAddr 2)]
   \<and> map_sum id (m_storage \<circ> (\<lambda>w. objs w 1)) (ErasuredType_move_assign 1 2 heap_and_inline) =
       Inr (Allocation (HeapAddr 4096) 8)
   \<and> map_sum id (valid 1) (ErasuredType_move_assign 1 2 heap_and_inline) = Inr True"
  by (simp add: heap_and_inline_def ErasuredType_ctor_def Storage_ctor_def aligned_alloc_def
        working_alloc_def S2_8_def uint32_t_def empty_world_def ErasuredType_move_assign_def
        call_destroyer_def call_mover_def upd_defs is_inlined_def pointer_def valid_def Let_def)

end
